theory Spec2Isabelle
  imports Main "HOL-Library.Sublist"
begin

section \<open>The timing profiler of \<open>src/profiler.js\<close>\<close>

text \<open>
  A shallow embedding of \<open>__Profiler\<close>. Timestamps and offsets are JavaScript numbers that
  hold integers (milliseconds), modelled as \<open>int\<close>. A JavaScript object whose properties
  are assigned by name is a map from names to values. A \<open>TypeError\<close> raised by reading a
  property of \<open>undefined\<close> is the value \<open>Inl TypeError\<close>; it propagates through every
  caller, as no function of the file catches anything.

  Property names are arbitrary strings, with the exception of the names every object
  inherits from \<open>Object.prototype\<close> (\<open>hasOwnProperty\<close>, \<open>__proto__\<close>, ...): a timing object
  is taken not to define those. A property of the timing object whose value is not a
  number (the method \<open>toJSON\<close>) fails the test of line 149 as a missing one does, and is
  left out of the model.

  The public \<open>init\<close> calls \<open>_init\<close> at once, or from a timer when it is given a positive
  timeout; the model covers \<open>_init\<close> and what it calls, the timer and the document are
  not part of it.
\<close>

subsection \<open>Array and string primitives\<close>

text \<open>\<open>Array.prototype.indexOf\<close>: the first position of an element, \<open>-1\<close> when absent.\<close>

fun indexOf_from :: "'a list \<Rightarrow> 'a \<Rightarrow> int \<Rightarrow> int" where
  "indexOf_from [] x i = - 1"
| "indexOf_from (y # ys) x i = (if y = x then i else indexOf_from ys x (i + 1))"

definition indexOf :: "'a list \<Rightarrow> 'a \<Rightarrow> int" where
  "indexOf xs x = indexOf_from xs x 0"

text \<open>\<open>Array.prototype.slice(begin, end)\<close>: negative arguments count from the end, both are
  clamped to the array, and an empty range gives the empty array.\<close>

definition slice :: "'a list \<Rightarrow> int \<Rightarrow> int \<Rightarrow> 'a list" where
  "slice xs b e =
     (let len = int (length xs);
          k = (if b < 0 then max (len + b) 0 else min b len);
          final = (if e < 0 then max (len + e) 0 else min e len)
      in take (nat (final - k)) (drop (nat k) xs))"

text \<open>\<open>String.prototype.indexOf\<close>: the first position at which the pattern occurs.\<close>

fun str_indexOf_from :: "string \<Rightarrow> string \<Rightarrow> int \<Rightarrow> int" where
  "str_indexOf_from [] pat i = (if pat = [] then i else - 1)"
| "str_indexOf_from (c # cs) pat i =
     (if prefix pat (c # cs) then i else str_indexOf_from cs pat (i + 1))"

definition str_indexOf :: "string \<Rightarrow> string \<Rightarrow> int" where
  "str_indexOf s pat = str_indexOf_from s pat 0"

text \<open>\<open>s.substr(0, n)\<close>: the first \<open>n\<close> characters, none when \<open>n\<close> is negative.\<close>

definition substr0 :: "string \<Rightarrow> int \<Rightarrow> string" where
  "substr0 s n = take (nat n) s"

subsection \<open>Data\<close>

datatype error = TypeError

text \<open>An entry of \<open>timingData\<close>: created as \<open>{ time: eventTime }\<close>; \<open>sectionIndex\<close>, \<open>label\<close>
  and \<open>timeEnd\<close> are added later and are \<open>undefined\<close> (\<open>None\<close>) until then.\<close>

record event =
  time :: int
  label :: "string option"
  timeEnd :: "int option"
  sectionIndex :: "nat option"

type_synonym events = "string \<rightharpoonup> event"

record chart_section =
  name :: string
  color :: "nat list"
  firstEventIndex :: int
  lastEventIndex :: int
  startTime :: int
  endTime :: int

text \<open>The \<open>options\<close> object built for each emitted row (lines 201 to 206).\<close>

record options =
  opt_color :: "nat list"
  sectionTimeBounds :: "int \<times> int"
  eventTimeBounds :: "int \<times> int"
  opt_label :: string

text \<open>The fields of a \<open>__Profiler\<close> instance. \<open>timingData\<close> is \<open>None\<close> when it holds
  \<open>undefined\<close>.\<close>

record profiler =
  totalTime :: int
  timingData :: "events option"
  sections :: "chart_section list"

text \<open>The constructor (lines 8 to 13); the empty array it stores in \<open>timingData\<close> has no
  own property that the code reads, like the empty map.\<close>

definition new_Profiler :: profiler where
  "new_Profiler = \<lparr>totalTime = 0, timingData = Some Map.empty, sections = []\<rparr>"

text \<open>A timing object: its own enumerable properties and those of its prototype, each in
  enumeration order. Reading a property looks at the object first and then at the
  prototype.\<close>

record timing_obj =
  own :: "(string \<times> int) list"
  proto :: "(string \<times> int) list"

definition get_prop :: "timing_obj \<Rightarrow> string \<Rightarrow> int option" where
  "get_prop obj k =
     (case map_of (own obj) k of Some v \<Rightarrow> Some v | None \<Rightarrow> map_of (proto obj) k)"

text \<open>\<open>window.performance\<close> (\<open>None\<close> when the browser has none) and its \<open>timing\<close> property.\<close>

record performance =
  timing :: "timing_obj option"

record window =
  window_performance :: "performance option"

subsection \<open>The event catalog and the sections\<close>

definition eventsOrder :: "string list" where
  "eventsOrder =
     [''navigationStart'', ''redirectStart'', ''redirectStart'',
      ''redirectEnd'', ''fetchStart'', ''domainLookupStart'',
      ''domainLookupEnd'', ''connectStart'', ''secureConnectionStart'',
      ''connectEnd'', ''requestStart'', ''responseStart'', ''responseEnd'',
      ''unloadEventStart'', ''unloadEventEnd'', ''domLoading'',
      ''domInteractive'', ''msFirstPaint'', ''domContentLoadedEventStart'',
      ''domContentLoadedEventEnd'', ''domContentLoaded'', ''domComplete'',
      ''loadEventStart'', ''loadEventEnd'']"

definition getPerfObjKeys :: "timing_obj \<Rightarrow> string list" where
  "getPerfObjKeys obj =
     (let keys = map fst (own obj) in if keys \<noteq> [] then keys else map fst (proto obj))"

text \<open>\<open>_getSections\<close>, in an environment that has \<open>Array.prototype.indexOf\<close> (every
  environment in which line 192 can run).\<close>

definition getSections :: "chart_section list" where
  "getSections =
     [\<lparr>name = ''network'', color = [224, 84, 63],
       firstEventIndex = indexOf eventsOrder ''navigationStart'',
       lastEventIndex = indexOf eventsOrder ''connectEnd'',
       startTime = 0, endTime = 0\<rparr>,
      \<lparr>name = ''server'', color = [255, 188, 0],
       firstEventIndex = indexOf eventsOrder ''requestStart'',
       lastEventIndex = indexOf eventsOrder ''responseEnd'',
       startTime = 0, endTime = 0\<rparr>,
      \<lparr>name = ''browser'', color = [16, 173, 171],
       firstEventIndex = indexOf eventsOrder ''unloadEventStart'',
       lastEventIndex = indexOf eventsOrder ''loadEventEnd'',
       startTime = 0, endTime = 0\<rparr>]"

subsection \<open>\<open>_matchEventsWithSections\<close>\<close>

text \<open>\<open>data[a].time\<close> inside the comparator; the comparator only sees names that passed the
  \<open>hasOwnProperty\<close> filter, so the second branch is never taken there.\<close>

definition time_of :: "events \<Rightarrow> string \<Rightarrow> int" where
  "time_of data a = (case data a of Some e \<Rightarrow> time e | None \<Rightarrow> 0)"

text \<open>The inner loop (lines 114 to 119), with its guard \<open>if (data[item])\<close>.\<close>

fun tag_events :: "nat \<Rightarrow> string list \<Rightarrow> events \<Rightarrow> events" where
  "tag_events i [] data = data"
| "tag_events i (item # items) data =
     (case data item of
        None \<Rightarrow> tag_events i items data
      | Some e \<Rightarrow> tag_events i items (data(item \<mapsto> e\<lparr>sectionIndex := Some i\<rparr>)))"

text \<open>Line 99: the catalog names of the section's index range.\<close>

definition sectionOrder :: "chart_section \<Rightarrow> string list" where
  "sectionOrder s = slice eventsOrder (firstEventIndex s) (lastEventIndex s + 1)"

text \<open>Lines 100 to 106: the names of the range that are present, sorted by time. Only the
  times of the first and the last name and the set of names are used afterwards, so the
  order \<open>Array.prototype.sort\<close> gives to names of equal time does not matter.\<close>

definition sectionEvents :: "events \<Rightarrow> chart_section \<Rightarrow> string list" where
  "sectionEvents data s =
     sort_key (time_of data) (filter (\<lambda>el. data el \<noteq> None) (sectionOrder s))"

text \<open>The body of the outer loop for section \<open>i\<close> (lines 96 to 119). On an empty array,
  \<open>sectionEvents[0]\<close> and \<open>sectionEvents[sectionEvents.length - 1]\<close> are \<open>undefined\<close>, and
  \<open>data[undefined]\<close> reads the property named \<open>undefined\<close>; reading \<open>.time\<close> of a missing
  entry raises \<open>TypeError\<close> (line 111 or 112).\<close>

definition matchSection ::
  "events \<Rightarrow> nat \<Rightarrow> chart_section \<Rightarrow> error + (events \<times> chart_section)" where
  "matchSection data i s =
     (let evs = sectionEvents data s;
          firstEvent = (if evs = [] then ''undefined'' else hd evs);
          lastEvent = (if evs = [] then ''undefined'' else last evs)
      in case data firstEvent of
           None \<Rightarrow> Inl TypeError
         | Some fe \<Rightarrow>
             (case data lastEvent of
                None \<Rightarrow> Inl TypeError
              | Some le \<Rightarrow>
                  Inr (tag_events i evs data, s\<lparr>startTime := time fe, endTime := time le\<rparr>)))"

fun match_loop ::
  "nat \<Rightarrow> chart_section list \<Rightarrow> events \<Rightarrow> error + (events \<times> chart_section list)" where
  "match_loop i [] data = Inr (data, [])"
| "match_loop i (s # ss) data =
     (case matchSection data i s of
        Inl e \<Rightarrow> Inl e
      | Inr (data', s') \<Rightarrow>
          (case match_loop (Suc i) ss data' of
             Inl e \<Rightarrow> Inl e
           | Inr (data'', ss') \<Rightarrow> Inr (data'', s' # ss')))"

definition matchEventsWithSections :: "profiler \<Rightarrow> error + profiler" where
  "matchEventsWithSections p =
     (case timingData p of
        None \<Rightarrow> (if sections p = [] then Inr p else Inl TypeError)
      | Some data \<Rightarrow>
          (case match_loop 0 (sections p) data of
             Inl e \<Rightarrow> Inl e
           | Inr (data', ss') \<Rightarrow> Inr (p\<lparr>timingData := Some data', sections := ss'\<rparr>)))"

subsection \<open>\<open>_getData\<close>\<close>

text \<open>The object literal \<open>{ time: eventTime }\<close> of line 151.\<close>

definition fresh_event :: "int \<Rightarrow> event" where
  "fresh_event t = \<lparr>time = t, label = None, timeEnd = None, sectionIndex = None\<rparr>"

text \<open>The loop of lines 146 to 157 over the enumerated names, with the accumulated
  \<open>events\<close> and \<open>totalTime\<close>. The test \<open>evt && evt > 0\<close> fails for a missing property
  (\<open>undefined\<close>), for zero and for a negative number.\<close>

fun getData_loop ::
  "timing_obj \<Rightarrow> int \<Rightarrow> string list \<Rightarrow> events \<times> int \<Rightarrow> events \<times> int" where
  "getData_loop td st [] acc = acc"
| "getData_loop td st (n # ns) (evs, tot) =
     (case get_prop td n of
        None \<Rightarrow> getData_loop td st ns (evs, tot)
      | Some evt \<Rightarrow>
          (if evt \<noteq> 0 \<and> evt > 0
           then let eventTime = evt - st
                in getData_loop td st ns
                     (evs(n \<mapsto> fresh_event eventTime),
                      if eventTime > tot then eventTime else tot)
           else getData_loop td st ns (evs, tot)))"

text \<open>\<open>timingData.navigationStart || 0\<close>.\<close>

definition origin :: "timing_obj \<Rightarrow> int" where
  "origin td =
     (case get_prop td ''navigationStart'' of
        None \<Rightarrow> 0
      | Some v \<Rightarrow> (if v \<noteq> 0 then v else 0))"

text \<open>\<open>_getData\<close> returns \<open>undefined\<close> (\<open>None\<close>) without touching the profiler when there is
  no \<open>window.performance\<close>; otherwise it stores \<open>totalTime\<close> and returns the events.
  \<open>Object.keys(undefined)\<close> raises \<open>TypeError\<close> when the performance object has no
  \<open>timing\<close>.\<close>

definition getData :: "window \<Rightarrow> profiler \<Rightarrow> error + (events option \<times> profiler)" where
  "getData w p =
     (case window_performance w of
        None \<Rightarrow> Inr (None, p)
      | Some data \<Rightarrow>
          (case timing data of
             None \<Rightarrow> Inl TypeError
           | Some td \<Rightarrow>
               (let eventNames = getPerfObjKeys td;
                    (evs, tot) = getData_loop td (origin td) eventNames (Map.empty, 0)
                in Inr (Some evs, p\<lparr>totalTime := tot\<rparr>))))"

subsection \<open>\<open>_init\<close>\<close>

text \<open>Decimal rendering of a number that holds an integer, as string concatenation does.\<close>

fun show_nat :: "nat \<Rightarrow> string" where
  "show_nat n =
     (if n < 10 then [char_of (48 + n)]
      else show_nat (n div 10) @ [char_of (48 + n mod 10)])"

declare show_nat.simps [simp del]

definition show_int :: "int \<Rightarrow> string" where
  "show_int i = (if i < 0 then CHR ''-'' # show_nat (nat (- i)) else show_nat (nat i))"

text \<open>The text appended to \<open>output\<close> for one row (lines 208 to 211).\<close>

definition output_line :: "options \<Rightarrow> string" where
  "output_line opts =
     opt_label opts @ '' '' @ show_int (fst (eventTimeBounds opts)) @ ''-''
       @ show_int (snd (eventTimeBounds opts)) @ '' ms<br>'' @ [CHR 0x0A]"

text \<open>Lines 186 to 195: whether a catalog name opens a block. \<open>isBlockStart\<close> holds when
  the name contains \<open>Start\<close>; \<open>eventName\<close> is what precedes its first occurrence;
  \<open>hasBlockEnd\<close> holds when the catalog has \<open>eventName + 'End'\<close>. The result is
  \<open>Some eventName\<close> when the test \<open>isBlockStart && hasBlockEnd\<close> of line 195 succeeds.\<close>

definition blockName :: "string \<Rightarrow> string option" where
  "blockName evt =
     (let startIndex = str_indexOf evt ''Start'';
          isBlockStart = (startIndex > - 1);
          eventName = substr0 evt startIndex;
          hasBlockEnd = (isBlockStart \<and> indexOf eventsOrder (eventName @ ''End'') > - 1)
      in if isBlockStart \<and> hasBlockEnd then Some eventName else None)"

text \<open>The loop of lines 178 to 213 over the catalog. \<open>rows\<close> collects the \<open>options\<close> objects
  in the order in which their lines are appended to \<open>output\<close>. The array \<open>skipEvents\<close> is
  written and never read, so it is left out. A \<open>TypeError\<close> is raised by
  \<open>this.timingData.hasOwnProperty\<close> when \<open>timingData\<close> is \<open>undefined\<close> (line 181), by
  \<open>this.timingData[eventName + 'End'].time\<close> when the end event is missing (line 197), and
  by \<open>sectionData.color\<close> when \<open>this.sections[item.sectionIndex]\<close> is \<open>undefined\<close>
  (line 202).\<close>

fun init_loop :: "string list \<Rightarrow> profiler \<Rightarrow> options list \<Rightarrow> error + (profiler \<times> options list)"
  where
  "init_loop [] p out = Inr (p, out)"
| "init_loop (evt # rest) p out =
     (case timingData p of
        None \<Rightarrow> Inl TypeError
      | Some data \<Rightarrow>
          (case data evt of
             None \<Rightarrow> init_loop rest p out
           | Some item \<Rightarrow>
               (case blockName evt of
                  None \<Rightarrow> init_loop rest p out
                | Some eventName \<Rightarrow>
                    (case data (eventName @ ''End'') of
                       None \<Rightarrow> Inl TypeError
                     | Some endItem \<Rightarrow>
                         (let item' = item\<lparr>label := Some eventName,
                                            timeEnd := Some (time endItem)\<rparr>;
                              p' = p\<lparr>timingData := Some (data(evt \<mapsto> item'))\<rparr>
                          in case sectionIndex item' of
                               None \<Rightarrow> Inl TypeError
                             | Some si \<Rightarrow>
                                 (if si < length (sections p')
                                  then let sectionData = sections p' ! si;
                                           opts = \<lparr>opt_color = color sectionData,
                                                   sectionTimeBounds =
                                                     (startTime sectionData, endTime sectionData),
                                                   eventTimeBounds = (time item', time endItem),
                                                   opt_label = eventName\<rparr>
                                       in init_loop rest p' (out @ [opts])
                                  else Inl TypeError))))))"

text \<open>What a completed \<open>_init\<close> leaves behind: the profiler, the rows, and the \<open>innerHTML\<close>
  of the element appended to the document.\<close>

record init_result =
  final :: profiler
  rows :: "options list"
  html :: string

definition init_private :: "window \<Rightarrow> profiler \<Rightarrow> error + init_result" where
  "init_private w p =
     (case getData w p of
        Inl e \<Rightarrow> Inl e
      | Inr (td, p1) \<Rightarrow>
          (let p2 = p1\<lparr>timingData := td, sections := getSections\<rparr>
           in case (if timingData p2 \<noteq> None \<and> sections p2 \<noteq> []
                    then matchEventsWithSections p2 else Inr p2) of
                Inl e \<Rightarrow> Inl e
              | Inr p3 \<Rightarrow>
                  (case init_loop eventsOrder p3 [] of
                     Inl e \<Rightarrow> Inl e
                   | Inr (p4, out) \<Rightarrow>
                       Inr \<lparr>final = p4, rows = out, html = concat (map output_line out)\<rparr>)))"

subsection \<open>Sample timing objects\<close>

text \<open>A browser whose timing object carries the given fields as own properties.\<close>

definition timing_of :: "(string \<times> int) list \<Rightarrow> timing_obj" where
  "timing_of props = \<lparr>own = props, proto = []\<rparr>"

definition window_of :: "(string \<times> int) list \<Rightarrow> window" where
  "window_of props = \<lparr>window_performance = Some \<lparr>timing = Some (timing_of props)\<rparr>\<rparr>"

text \<open>A browser without \<open>window.performance\<close>.\<close>

definition no_performance :: window where
  "no_performance = \<lparr>window_performance = None\<rparr>"

text \<open>A page load read inside the \<open>load\<close> handler, where \<open>init()\<close> without a timeout
  runs: every milestone of an ordinary navigation is set, \<open>loadEventStart\<close> included, and
  \<open>loadEventEnd\<close> is still zero. There was no redirect, no previous document and no TLS.\<close>

definition during_load :: "(string \<times> int) list" where
  "during_load =
     [(''navigationStart'', 1000), (''unloadEventStart'', 0), (''unloadEventEnd'', 0),
      (''redirectStart'', 0), (''redirectEnd'', 0), (''fetchStart'', 1002),
      (''domainLookupStart'', 1010), (''domainLookupEnd'', 1040),
      (''connectStart'', 1040), (''connectEnd'', 1060), (''secureConnectionStart'', 0),
      (''requestStart'', 1061), (''responseStart'', 1100), (''responseEnd'', 1150),
      (''domLoading'', 1110), (''domInteractive'', 1300),
      (''domContentLoadedEventStart'', 1300), (''domContentLoadedEventEnd'', 1310),
      (''domComplete'', 1400), (''loadEventStart'', 1400), (''loadEventEnd'', 0)]"

text \<open>A timing object in which a name lookup started and its end is not recorded; each
  section has a present event.\<close>

definition unpaired_lookup :: "(string \<times> int) list" where
  "unpaired_lookup =
     [(''navigationStart'', 1000), (''domainLookupStart'', 1010), (''domainLookupEnd'', 0),
      (''requestStart'', 1100), (''responseEnd'', 1150), (''domLoading'', 1200)]"

text \<open>A timing object with no event of the server section.\<close>

definition no_server_events :: "(string \<times> int) list" where
  "no_server_events =
     [(''navigationStart'', 1000), (''fetchStart'', 1002), (''requestStart'', 0),
      (''responseStart'', 0), (''responseEnd'', 0), (''domLoading'', 1200),
      (''domComplete'', 1400)]"

text \<open>Four retained events at the offsets 0, 120, 340 and 50, and a field that did not
  occur.\<close>

definition four_events :: "(string \<times> int) list" where
  "four_events =
     [(''navigationStart'', 1000), (''requestStart'', 1120), (''loadEventEnd'', 1340),
      (''fetchStart'', 1050), (''redirectStart'', 0)]"

text \<open>An object with one own field whose \<open>navigationStart\<close> is inherited:
  \<open>Object.keys\<close> lists the own field only, \<open>timingData.navigationStart\<close> reads the
  inherited one.\<close>

definition inherited_origin :: window where
  "inherited_origin =
     \<lparr>window_performance = Some \<lparr>timing = Some
        \<lparr>own = [(''fetchStart'', 500)], proto = [(''navigationStart'', 1000)]\<rparr>\<rparr>\<rparr>"

text \<open>A source whose clock starts below zero, and one with a field earlier than its
  \<open>navigationStart\<close>.\<close>

definition negative_origin :: "(string \<times> int) list" where
  "negative_origin = [(''navigationStart'', - 100), (''fetchStart'', - 50)]"

definition early_fetch :: "(string \<times> int) list" where
  "early_fetch = [(''navigationStart'', 1000), (''fetchStart'', 500)]"

text \<open>Events of the server section only: \<open>requestStart\<close> at offset 100 and \<open>responseEnd\<close> at
  offset 250.\<close>

definition server_only :: events where
  "server_only = [''requestStart'' \<mapsto> fresh_event 100, ''responseEnd'' \<mapsto> fresh_event 250]"

text \<open>A source that holds \<open>requestStart\<close> at 100 and \<open>responseEnd\<close> at 250 and nothing else.\<close>

definition server_fields :: "(string \<times> int) list" where
  "server_fields = [(''requestStart'', 100), (''responseEnd'', 250)]"

text \<open>A redirect that ends after the name lookup of the final request began: the catalog
  puts \<open>redirect\<close> first, the times put \<open>domainLookup\<close> first.\<close>

definition late_redirect :: "(string \<times> int) list" where
  "late_redirect =
     [(''navigationStart'', 1000), (''redirectStart'', 1300), (''redirectEnd'', 1310),
      (''domainLookupStart'', 1010), (''domainLookupEnd'', 1040),
      (''requestStart'', 1320), (''responseEnd'', 1350), (''domLoading'', 1400)]"

text \<open>The same page read after the \<open>load\<close> event has finished.\<close>

definition complete_load :: "(string \<times> int) list" where
  "complete_load =
     [(''navigationStart'', 1000), (''unloadEventStart'', 0), (''unloadEventEnd'', 0),
      (''redirectStart'', 0), (''redirectEnd'', 0), (''fetchStart'', 1002),
      (''domainLookupStart'', 1010), (''domainLookupEnd'', 1040),
      (''connectStart'', 1040), (''connectEnd'', 1060), (''secureConnectionStart'', 0),
      (''requestStart'', 1061), (''responseStart'', 1100), (''responseEnd'', 1150),
      (''domLoading'', 1110), (''domInteractive'', 1300),
      (''domContentLoadedEventStart'', 1300), (''domContentLoadedEventEnd'', 1310),
      (''domComplete'', 1400), (''loadEventStart'', 1400), (''loadEventEnd'', 1420)]"

text \<open>A source that holds a name lookup at the offsets 10 and 40 and nothing else.\<close>

definition lookup_only :: "(string \<times> int) list" where
  "lookup_only = [(''domainLookupStart'', 10), (''domainLookupEnd'', 40)]"

text \<open>A page reached through a redirect, read after and inside its \<open>load\<close> handler.\<close>

definition redirected_load :: "(string \<times> int) list" where
  "redirected_load =
     [(''navigationStart'', 1000), (''unloadEventStart'', 0), (''unloadEventEnd'', 0),
      (''redirectStart'', 1001), (''redirectEnd'', 1005), (''fetchStart'', 1006),
      (''domainLookupStart'', 1010), (''domainLookupEnd'', 1040),
      (''connectStart'', 1040), (''connectEnd'', 1060), (''secureConnectionStart'', 0),
      (''requestStart'', 1061), (''responseStart'', 1100), (''responseEnd'', 1150),
      (''domLoading'', 1110), (''domInteractive'', 1300),
      (''domContentLoadedEventStart'', 1300), (''domContentLoadedEventEnd'', 1310),
      (''domComplete'', 1400), (''loadEventStart'', 1400), (''loadEventEnd'', 1420)]"

definition redirected_during_load :: "(string \<times> int) list" where
  "redirected_during_load =
     [(''navigationStart'', 1000), (''unloadEventStart'', 0), (''unloadEventEnd'', 0),
      (''redirectStart'', 1001), (''redirectEnd'', 1005), (''fetchStart'', 1006),
      (''domainLookupStart'', 1010), (''domainLookupEnd'', 1040),
      (''connectStart'', 1040), (''connectEnd'', 1060), (''secureConnectionStart'', 0),
      (''requestStart'', 1061), (''responseStart'', 1100), (''responseEnd'', 1150),
      (''domLoading'', 1110), (''domInteractive'', 1300),
      (''domContentLoadedEventStart'', 1300), (''domContentLoadedEventEnd'', 1310),
      (''domComplete'', 1400), (''loadEventStart'', 1400), (''loadEventEnd'', 0)]"

subsection \<open>Notions used to state the properties\<close>

text \<open>The offsets of the retained fields, in enumeration order: raw value minus origin, for
  every enumerated name whose raw value is positive.\<close>

definition offsets :: "timing_obj \<Rightarrow> string list \<Rightarrow> int list" where
  "offsets td ns =
     concat (map (\<lambda>n. case get_prop td n of
                          None \<Rightarrow> []
                        | Some v \<Rightarrow> if 0 < v then [v - origin td] else []) ns)"

text \<open>The label of the row a catalog name gives rise to: its block name.\<close>

definition label_of :: "string \<Rightarrow> string" where
  "label_of evt = (case blockName evt of Some eventName \<Rightarrow> eventName | None \<Rightarrow> [])"

text \<open>The section index an event is tagged with.\<close>

definition section_of :: "events \<Rightarrow> string \<Rightarrow> nat" where
  "section_of data evt =
     (case data evt of
        None \<Rightarrow> 0
      | Some item \<Rightarrow> (case sectionIndex item of None \<Rightarrow> 0 | Some si \<Rightarrow> si))"

text \<open>The row \<open>_init\<close> emits for a present catalog name that opens a block, read off the
  sections and events as they are when the loop starts.\<close>

definition row_of :: "chart_section list \<Rightarrow> events \<Rightarrow> string \<Rightarrow> options" where
  "row_of secs data evt =
     (let sectionData = secs ! section_of data evt
      in \<lparr>opt_color = color sectionData,
          sectionTimeBounds = (startTime sectionData, endTime sectionData),
          eventTimeBounds = (time_of data evt, time_of data (label_of evt @ ''End'')),
          opt_label = label_of evt\<rparr>)"

text \<open>Two event maps agree on which names are present and on the time and section of
  each; the loop of \<open>_init\<close> changes labels and end times only.\<close>

definition same_core :: "events \<Rightarrow> events \<Rightarrow> bool" where
  "same_core d d' =
     (\<forall>k. map_option (\<lambda>e. (time e, sectionIndex e)) (d' k) =
          map_option (\<lambda>e. (time e, sectionIndex e)) (d k))"

text \<open>The catalog names that open a block, in catalog order.\<close>

definition block_starts :: "string list" where
  "block_starts = filter (\<lambda>evt. blockName evt \<noteq> None) eventsOrder"

text \<open>Two event maps agree on which names are present and on the time of each; tagging
  events with their section changes nothing else.\<close>

definition same_times :: "events \<Rightarrow> events \<Rightarrow> bool" where
  "same_times d d' = (\<forall>k. map_option time (d' k) = map_option time (d k))"

text \<open>The block names of the catalog, each once.\<close>

definition blockNames :: "string list" where
  "blockNames = remdups (map label_of block_starts)"

text \<open>The catalog index of the start event of a row.\<close>

definition start_index :: "options \<Rightarrow> int" where
  "start_index opts = indexOf eventsOrder (opt_label opts @ ''Start'')"

text \<open>An event is present and tagged with a section index below \<open>n\<close>.\<close>

definition tagged_below :: "nat \<Rightarrow> events \<Rightarrow> string \<Rightarrow> bool" where
  "tagged_below n data el =
     (case data el of
        None \<Rightarrow> False
      | Some e \<Rightarrow> (case sectionIndex e of None \<Rightarrow> False | Some j \<Rightarrow> j < n))"

text \<open>What one step of the loop of \<open>_init\<close> needs in order not to raise: a present catalog
  name that opens a block has its end event present and is tagged with an existing
  section.\<close>

definition loop_ok :: "nat \<Rightarrow> events \<Rightarrow> string \<Rightarrow> bool" where
  "loop_ok n data evt =
     (case data evt of
        None \<Rightarrow> True
      | Some item \<Rightarrow>
          (case blockName evt of
             None \<Rightarrow> True
           | Some b \<Rightarrow> data (b @ ''End'') \<noteq> None \<and> tagged_below n data evt))"

text \<open>A captured event set on which \<open>_init\<close> completes: every section has a present event
  in its range, and every present catalog name that opens a block has its end event
  present.\<close>

definition well_formed :: "events \<Rightarrow> bool" where
  "well_formed evs \<longleftrightarrow>
     (\<forall>s\<in>set getSections. \<exists>el\<in>set (sectionOrder s). evs el \<noteq> None) \<and>
     (\<forall>evt\<in>set eventsOrder.
        evs evt \<noteq> None \<longrightarrow>
        (case blockName evt of None \<Rightarrow> True | Some b \<Rightarrow> evs (b @ ''End'') \<noteq> None))"

text \<open>The times of the present events of a section's range.\<close>

definition present_times :: "events \<Rightarrow> chart_section \<Rightarrow> int set" where
  "present_times data s = time_of data ` {el \<in> set (sectionOrder s). data el \<noteq> None}"

section \<open>Properties\<close>

subsection \<open>Errors\<close>

lemma isl_TypeError: "isl x \<Longrightarrow> x = Inl TypeError"
  for x :: "error + 'a"
proof (cases x)
  case (Inl e)
  then show ?thesis by (cases e) simp
next
  case (Inr r)
  assume "isl x"
  with Inr show ?thesis by simp
qed

text \<open>
  Claim C3. Without a timing source the computation was to signal "unsupported" and show
  a notice instead of throwing. \<open>_getData\<close> does return \<open>undefined\<close> and leaves the profiler
  untouched, but \<open>_init\<close> goes on to its loop, whose first step calls
  \<open>this.timingData.hasOwnProperty\<close> on \<open>undefined\<close>: a \<open>TypeError\<close> leaves \<open>_init\<close>, and
  \<open>_createNotSupportedInfo\<close> is never called.
\<close>

theorem C3_unsupported_throws:
  "getData no_performance p = Inr (None, p) \<and> init_private no_performance p = Inl TypeError"
  by (simp add: getData_def init_private_def no_performance_def eventsOrder_def)

subsection \<open>\<open>_getData\<close>\<close>

lemma getData_loop_keep:
  "k \<notin> set ns \<Longrightarrow> fst (getData_loop td st ns (evs, tot)) k = evs k"
  by (induction ns arbitrary: evs tot) (simp_all split: option.splits add: Let_def)

lemma getData_loop_present:
  "k \<in> set ns \<Longrightarrow> get_prop td k = Some v \<Longrightarrow> 0 < v \<Longrightarrow>
   fst (getData_loop td st ns (evs, tot)) k = Some (fresh_event (v - st))"
proof (induction ns arbitrary: evs tot)
  case Nil
  then show ?case by simp
next
  case (Cons n ns)
  show ?case
  proof (cases "k \<in> set ns")
    case True
    with Cons show ?thesis
      by (simp split: option.splits add: Let_def)
  next
    case False
    with Cons.prems have "n = k" by simp
    with Cons.prems False show ?thesis
      by (simp add: getData_loop_keep Let_def)
  qed
qed

lemma getData_loop_only:
  "fst (getData_loop td st ns (evs, tot)) k = Some e \<Longrightarrow>
   evs k = Some e \<or>
   (k \<in> set ns \<and> (\<exists>v. get_prop td k = Some v \<and> 0 < v \<and> e = fresh_event (v - st)))"
proof (induction ns arbitrary: evs tot)
  case Nil
  then show ?case by simp
next
  case (Cons n ns)
  then show ?case
    by (fastforce simp: Let_def split: option.splits if_splits)
qed

lemma getData_loop_total:
  "snd (getData_loop td (origin td) ns (evs, tot)) = fold max (offsets td ns) tot"
proof (induction ns arbitrary: evs tot)
  case Nil
  then show ?case by (simp add: offsets_def)
next
  case (Cons n ns)
  have step: "offsets td (n # ns) =
      (case get_prop td n of
         None \<Rightarrow> offsets td ns
       | Some v \<Rightarrow> if 0 < v then (v - origin td) # offsets td ns else offsets td ns)"
    by (simp add: offsets_def split: option.splits)
  show ?case
    by (simp add: step Cons.IH Let_def max_def split: option.splits)
qed

lemma fold_max_Max: "fold max xs (t::int) = Max (insert t (set xs))"
  using Max.set_eq_fold [of t xs] by simp

lemma set_offsets:
  "set (offsets td ns) =
     {v - origin td | k v. k \<in> set ns \<and> get_prop td k = Some v \<and> 0 < v}"
  by (auto simp: offsets_def split: option.splits if_splits)

lemma ran_getData_loop:
  "time ` ran (fst (getData_loop td (origin td) ns (Map.empty, 0))) = set (offsets td ns)"
proof -
  let ?evs = "fst (getData_loop td (origin td) ns (Map.empty, 0))"
  have "ran ?evs = fresh_event ` set (offsets td ns)"
  proof (intro set_eqI iffI)
    fix e assume "e \<in> ran ?evs"
    then obtain k where "?evs k = Some e" by (auto simp: ran_def)
    from getData_loop_only [OF this]
    show "e \<in> fresh_event ` set (offsets td ns)"
      by (auto simp: set_offsets)
  next
    fix e assume "e \<in> fresh_event ` set (offsets td ns)"
    then obtain k v where kv: "k \<in> set ns" "get_prop td k = Some v" "0 < v"
      and e: "e = fresh_event (v - origin td)" by (auto simp: set_offsets)
    from getData_loop_present [where st = "origin td" and evs = Map.empty and tot = 0, OF kv] e
    show "e \<in> ran ?evs"
      unfolding ran_def by blast
  qed
  then show ?thesis
    by (simp add: image_image fresh_event_def)
qed

lemma getData_SomeE:
  assumes "getData w p = Inr (Some evs, p')"
  obtains perf td where "window_performance w = Some perf" and "timing perf = Some td"
    and "evs = fst (getData_loop td (origin td) (getPerfObjKeys td) (Map.empty, 0))"
    and "p' = p\<lparr>totalTime := snd (getData_loop td (origin td) (getPerfObjKeys td) (Map.empty, 0))\<rparr>"
  using assms
  by (auto simp: getData_def Let_def split: option.splits prod.splits)

lemma getData_supported:
  assumes "window_performance w = Some perf" and "timing perf = Some td"
  shows "getData w p =
     Inr (Some (fst (getData_loop td (origin td) (getPerfObjKeys td) (Map.empty, 0))),
          p\<lparr>totalTime := snd (getData_loop td (origin td) (getPerfObjKeys td) (Map.empty, 0))\<rparr>)"
  using assms by (simp add: getData_def Let_def split: prod.splits)

lemma window_of_timing:
  "window_performance (window_of props) = Some \<lparr>timing = Some (timing_of props)\<rparr>"
  by (simp add: window_of_def)

lemma timing_timing_of: "timing \<lparr>timing = Some (timing_of props)\<rparr> = Some (timing_of props)"
  by simp

lemma getData_window_of:
  "getData (window_of props) p =
     Inr (Some (fst (getData_loop (timing_of props) (origin (timing_of props))
                       (getPerfObjKeys (timing_of props)) (Map.empty, 0))),
          p\<lparr>totalTime := snd (getData_loop (timing_of props) (origin (timing_of props))
                                 (getPerfObjKeys (timing_of props)) (Map.empty, 0))\<rparr>)"
  by (rule getData_supported [OF window_of_timing timing_timing_of])

text \<open>
  Claim C5, as stated: \<open>totalTime\<close> is the maximum of the offsets of the retained fields. It
  fails when every retained offset is negative: \<open>totalTime\<close> starts at zero (line 144) and
  is only ever raised (line 153). Here the one retained field has offset \<open>-500\<close> and
  \<open>totalTime\<close> is \<open>0\<close>.
\<close>

theorem C5_counterexample:
  "getData inherited_origin new_Profiler =
     Inr (Some [''fetchStart'' \<mapsto> fresh_event (- 500)], new_Profiler\<lparr>totalTime := 0\<rparr>) \<and>
   Max (time ` ran [''fetchStart'' \<mapsto> fresh_event (- 500)]) = - 500 \<and>
   totalTime (new_Profiler\<lparr>totalTime := 0\<rparr>) = 0"
  by (simp add: getData_def inherited_origin_def getPerfObjKeys_def get_prop_def origin_def
      fresh_event_def)

text \<open>
  Claim C5, amended. \<open>totalTime\<close> is the larger of zero and the maximum offset of the retained
  fields (zero when nothing is retained), and it is the maximum offset itself as soon as
  one retained offset is not negative. That is the case whenever \<open>navigationStart\<close> itself
  is retained: its offset is zero. For the offsets 0, 120, 340 and 50 \<open>totalTime\<close> is 340.
\<close>

theorem C5_totalTime:
  assumes "getData w p = Inr (Some evs, p')"
  shows "totalTime p' = Max (insert 0 (time ` ran evs)) \<and>
         ((\<exists>e\<in>ran evs. 0 \<le> time e) \<longrightarrow> totalTime p' = Max (time ` ran evs)) \<and>
         (evs ''navigationStart'' \<noteq> None \<longrightarrow>
            map_option time (evs ''navigationStart'') = Some 0 \<and>
            totalTime p' = Max (time ` ran evs))"
proof -
  from assms obtain perf td where
    evs: "evs = fst (getData_loop td (origin td) (getPerfObjKeys td) (Map.empty, 0))" and
    p': "p' = p\<lparr>totalTime := snd (getData_loop td (origin td) (getPerfObjKeys td) (Map.empty, 0))\<rparr>"
    by (rule getData_SomeE)
  have ran: "time ` ran evs = set (offsets td (getPerfObjKeys td))"
    unfolding evs by (rule ran_getData_loop)
  have tot: "totalTime p' = Max (insert 0 (time ` ran evs))"
    by (simp add: p' getData_loop_total fold_max_Max ran)
  have fin: "finite (time ` ran evs)"
    by (simp add: ran)
  have attained: "totalTime p' = Max (time ` ran evs)" if "\<exists>e\<in>ran evs. 0 \<le> time e"
  proof -
    from that obtain e where e: "e \<in> ran evs" "0 \<le> time e" by blast
    then have ne: "time ` ran evs \<noteq> {}" by blast
    from e fin have "0 \<le> Max (time ` ran evs)"
      by (meson Max_ge image_eqI order_trans)
    with fin ne show ?thesis
      by (simp add: tot max_def)
  qed
  have origin: "map_option time (evs ''navigationStart'') = Some 0 \<and>
      totalTime p' = Max (time ` ran evs)"
    if "evs ''navigationStart'' \<noteq> None"
  proof -
    from that obtain e where e: "evs ''navigationStart'' = Some e"
      by blast
    then have "fst (getData_loop td (origin td) (getPerfObjKeys td) (Map.empty, 0))
        ''navigationStart'' = Some e"
      by (simp add: evs)
    from getData_loop_only [OF this] obtain v where
      v: "get_prop td ''navigationStart'' = Some v" "0 < v" "e = fresh_event (v - origin td)"
      by auto
    from v(1,2) have "origin td = v"
      by (simp add: origin_def)
    with v(3) have zero: "time e = 0"
      by (simp add: fresh_event_def)
    from e have mem: "e \<in> ran evs"
      unfolding ran_def by blast
    from zero have "0 \<le> time e"
      by simp
    with mem have "\<exists>e\<in>ran evs. 0 \<le> time e" ..
    from attained [OF this] e zero show ?thesis
      by simp
  qed
  from tot attained origin show ?thesis
    by blast
qed

theorem C5_totalTime_witness:
  "\<exists>evs p'. getData (window_of four_events) new_Profiler = Inr (Some evs, p') \<and>
     time ` ran evs = {0, 120, 340, 50} \<and>
     evs ''navigationStart'' \<noteq> None \<and>
     map_option time (evs ''navigationStart'') = Some 0 \<and>
     totalTime p' = Max (time ` ran evs) \<and> totalTime p' = 340"
proof -
  let ?td = "timing_of four_events"
  let ?r = "getData_loop ?td (origin ?td) (getPerfObjKeys ?td) (Map.empty, 0)"
  have run: "getData (window_of four_events) new_Profiler =
      Inr (Some (fst ?r), new_Profiler\<lparr>totalTime := snd ?r\<rparr>)"
    by (rule getData_window_of)
  have offs: "time ` ran (fst ?r) = {0, 120, 340, 50}"
    unfolding ran_getData_loop
    by (simp add: offsets_def timing_of_def four_events_def getPerfObjKeys_def get_prop_def
        origin_def)
  have "fst ?r ''navigationStart'' = Some (fresh_event (1000 - origin ?td))"
    by (rule getData_loop_present)
      (simp_all add: getPerfObjKeys_def timing_of_def get_prop_def four_events_def)
  then have retained: "fst ?r ''navigationStart'' \<noteq> None"
    by simp
  note third = C5_totalTime [OF run, THEN conjunct2, THEN conjunct2, THEN mp, OF retained]
  from third have zero: "map_option time (fst ?r ''navigationStart'') = Some 0" ..
  from third have
    top: "totalTime (new_Profiler\<lparr>totalTime := snd ?r\<rparr>) = Max (time ` ran (fst ?r))" ..
  then have "totalTime (new_Profiler\<lparr>totalTime := snd ?r\<rparr>) = 340"
    by (simp add: offs)
  with run offs retained zero top show ?thesis
    by (intro exI conjI)
qed

text \<open>
  Claim C6, as stated: with \<open>navigationStart = T0\<close> and a field \<open>X = T0 + d\<close>, \<open>d > 0\<close>, the
  events contain \<open>X\<close> at time \<open>d\<close>. It fails when \<open>T0 + d\<close> is not positive: the test of
  line 149 drops such a field, as the second half of the claim itself demands. Here
  \<open>T0 = -100\<close> and \<open>d = 50\<close>, and nothing is retained.
\<close>

theorem C6_counterexample:
  "get_prop (timing_of negative_origin) ''navigationStart'' = Some (- 100) \<and>
   get_prop (timing_of negative_origin) ''fetchStart'' = Some (- 100 + 50) \<and>
   getData (window_of negative_origin) new_Profiler =
     Inr (Some Map.empty, new_Profiler\<lparr>totalTime := 0\<rparr>)"
  by (simp add: getData_def window_of_def timing_of_def negative_origin_def getPerfObjKeys_def
      get_prop_def origin_def)

text \<open>
  Claim C6, amended. With a timing source, \<open>_getData\<close> returns events such that: an
  enumerated field \<open>X = T0 + d\<close> with \<open>d > 0\<close> and a positive raw value \<open>T0 + d\<close>, where
  \<open>T0\<close> is \<open>navigationStart\<close>, is present as a fresh entry of time \<open>d\<close>; and every name
  present in the events is an enumerated field with a positive raw value, so that a
  field that is missing, zero or negative is absent.
\<close>

theorem C6_offsets:
  assumes "window_performance w = Some perf" and "timing perf = Some td"
  shows "\<exists>evs p'. getData w p = Inr (Some evs, p') \<and>
     (\<forall>X T0 d. X \<in> set (getPerfObjKeys td) \<and> get_prop td ''navigationStart'' = Some T0 \<and>
        get_prop td X = Some (T0 + d) \<and> 0 < d \<and> 0 < T0 + d \<longrightarrow>
        evs X = Some (fresh_event d)) \<and>
     (\<forall>k. evs k \<noteq> None \<longrightarrow>
        k \<in> set (getPerfObjKeys td) \<and> (\<exists>v. get_prop td k = Some v \<and> 0 < v))"
proof -
  let ?r = "getData_loop td (origin td) (getPerfObjKeys td) (Map.empty, 0)"
  have run: "getData w p = Inr (Some (fst ?r), p\<lparr>totalTime := snd ?r\<rparr>)"
    by (rule getData_supported [OF assms])
  have "fst ?r X = Some (fresh_event d)"
    if "X \<in> set (getPerfObjKeys td)" "get_prop td ''navigationStart'' = Some T0"
      "get_prop td X = Some (T0 + d)" "0 < d" "0 < T0 + d" for X T0 d
  proof -
    from that(2) have "origin td = T0" by (simp add: origin_def)
    with getData_loop_present [OF that(1) that(3) that(5), of "origin td" Map.empty 0]
    show ?thesis by simp
  qed
  moreover have "k \<in> set (getPerfObjKeys td) \<and> (\<exists>v. get_prop td k = Some v \<and> 0 < v)"
    if "fst ?r k \<noteq> None" for k
  proof -
    from that obtain e where "fst ?r k = Some e" by blast
    from getData_loop_only [OF this] show ?thesis by auto
  qed
  ultimately show ?thesis
    using run by blast
qed

theorem C6_offsets_witness:
  "\<exists>evs p'. getData (window_of four_events) new_Profiler = Inr (Some evs, p') \<and>
     evs ''requestStart'' = Some (fresh_event 120) \<and> evs ''redirectStart'' = None"
proof -
  let ?td = "timing_of four_events"
  from C6_offsets [OF window_of_timing timing_timing_of, where p = new_Profiler and props1 = four_events]
  obtain evs p' where run: "getData (window_of four_events) new_Profiler = Inr (Some evs, p')"
    and present: "\<And>X T0 d. X \<in> set (getPerfObjKeys ?td) \<and>
        get_prop ?td ''navigationStart'' = Some T0 \<and>
        get_prop ?td X = Some (T0 + d) \<and> 0 < d \<and> 0 < T0 + d \<Longrightarrow>
        evs X = Some (fresh_event d)"
    and absent: "\<And>k. evs k \<noteq> None \<Longrightarrow>
        k \<in> set (getPerfObjKeys ?td) \<and> (\<exists>v. get_prop ?td k = Some v \<and> 0 < v)"
    by auto
  have "evs ''requestStart'' = Some (fresh_event 120)"
    by (rule present [of _ 1000])
      (simp add: timing_of_def four_events_def getPerfObjKeys_def get_prop_def)
  moreover have "evs ''redirectStart'' = None"
  proof (rule ccontr)
    assume "evs ''redirectStart'' \<noteq> None"
    from absent [OF this] show False
      by (simp add: timing_of_def four_events_def get_prop_def)
  qed
  ultimately show ?thesis
    using run by blast
qed

text \<open>
  Claim C9, as stated: every retained event has a non-negative time. It fails for a field
  that is positive and earlier than \<open>navigationStart\<close>: the loop subtracts the origin
  (line 150) and never clamps the difference. Here \<open>fetchStart\<close> is retained at time
  \<open>-500\<close>.
\<close>

theorem C9_counterexample:
  "getData (window_of early_fetch) new_Profiler =
     Inr (Some [''navigationStart'' \<mapsto> fresh_event 0, ''fetchStart'' \<mapsto> fresh_event (- 500)],
          new_Profiler\<lparr>totalTime := 0\<rparr>) \<and>
   time (fresh_event (- 500)) < 0"
  by (simp add: getData_def window_of_def timing_of_def early_fetch_def getPerfObjKeys_def
      get_prop_def origin_def fresh_event_def)

text \<open>
  Claim C9, amended. Every retained event comes from a field with a positive raw value,
  its time is that value minus the origin, and the time is non-negative exactly when the
  raw value is not below the origin. Nothing is clamped or dropped on account of its
  sign: every enumerated field with a positive raw value is retained, as a fresh entry at
  its raw value minus the origin, also when that difference is negative.
\<close>

theorem C9_offset_sign:
  assumes "window_performance w = Some perf" and "timing perf = Some td"
  shows "\<exists>evs p'. getData w p = Inr (Some evs, p') \<and>
     (\<forall>k e. evs k = Some e \<longrightarrow>
        (\<exists>v. get_prop td k = Some v \<and> 0 < v \<and> time e = v - origin td \<and>
             (0 \<le> time e \<longleftrightarrow> origin td \<le> v))) \<and>
     (\<forall>k v. k \<in> set (getPerfObjKeys td) \<and> get_prop td k = Some v \<and> 0 < v \<longrightarrow>
        evs k = Some (fresh_event (v - origin td)))"
proof -
  let ?r = "getData_loop td (origin td) (getPerfObjKeys td) (Map.empty, 0)"
  have run: "getData w p = Inr (Some (fst ?r), p\<lparr>totalTime := snd ?r\<rparr>)"
    by (rule getData_supported [OF assms])
  have "\<exists>v. get_prop td k = Some v \<and> 0 < v \<and> time e = v - origin td \<and>
             (0 \<le> time e \<longleftrightarrow> origin td \<le> v)"
    if "fst ?r k = Some e" for k e
    using getData_loop_only [OF that] by (auto simp: fresh_event_def)
  moreover have "fst ?r k = Some (fresh_event (v - origin td))"
    if "k \<in> set (getPerfObjKeys td) \<and> get_prop td k = Some v \<and> 0 < v" for k v
  proof (rule getData_loop_present)
    from that show "k \<in> set (getPerfObjKeys td)" and "get_prop td k = Some v" and "0 < v"
      by simp_all
  qed
  ultimately show ?thesis
    using run by blast
qed

theorem C9_offset_sign_witness:
  "\<exists>evs p' e. getData (window_of early_fetch) new_Profiler = Inr (Some evs, p') \<and>
     evs ''fetchStart'' = Some e \<and> e = fresh_event (- 500) \<and> time e = - 500 \<and>
     \<not> 0 \<le> time e"
proof -
  let ?td = "timing_of early_fetch"
  from C9_offset_sign [OF window_of_timing timing_timing_of,
      where p = new_Profiler and props1 = early_fetch]
  obtain evs p' where run: "getData (window_of early_fetch) new_Profiler = Inr (Some evs, p')"
    and sign: "\<And>k e. evs k = Some e \<Longrightarrow>
        \<exists>v. get_prop ?td k = Some v \<and> 0 < v \<and> time e = v - origin ?td \<and>
             (0 \<le> time e \<longleftrightarrow> origin ?td \<le> v)"
    and kept: "\<And>k v. k \<in> set (getPerfObjKeys ?td) \<and> get_prop ?td k = Some v \<and> 0 < v \<Longrightarrow>
        evs k = Some (fresh_event (v - origin ?td))"
    by auto
  have origin: "origin ?td = 1000"
    by (simp add: origin_def get_prop_def timing_of_def early_fetch_def)
  have "evs ''fetchStart'' = Some (fresh_event (500 - origin ?td))"
    by (rule kept)
      (simp add: getPerfObjKeys_def timing_of_def get_prop_def early_fetch_def)
  then have present: "evs ''fetchStart'' = Some (fresh_event (- 500))"
    by (simp add: origin)
  from sign [OF present]
  have "time (fresh_event (- 500)) = - 500 \<and> \<not> 0 \<le> time (fresh_event (- 500))"
    by (simp add: timing_of_def early_fetch_def get_prop_def origin_def)
  with present run show ?thesis
    by blast
qed

subsection \<open>\<open>_matchEventsWithSections\<close>\<close>

lemma getSections_indices:
  "map (\<lambda>s. (name s, firstEventIndex s, lastEventIndex s)) getSections =
     [(''network'', 0, 9), (''server'', 10, 12), (''browser'', 13, 23)]"
  by (simp add: getSections_def indexOf_def eventsOrder_def)

lemma sectionOrder_getSections:
  "map sectionOrder getSections =
     [[''navigationStart'', ''redirectStart'', ''redirectStart'', ''redirectEnd'',
       ''fetchStart'', ''domainLookupStart'', ''domainLookupEnd'', ''connectStart'',
       ''secureConnectionStart'', ''connectEnd''],
      [''requestStart'', ''responseStart'', ''responseEnd''],
      [''unloadEventStart'', ''unloadEventEnd'', ''domLoading'', ''domInteractive'',
       ''msFirstPaint'', ''domContentLoadedEventStart'', ''domContentLoadedEventEnd'',
       ''domContentLoaded'', ''domComplete'', ''loadEventStart'', ''loadEventEnd'']]"
  by (simp add: getSections_def sectionOrder_def slice_def indexOf_def eventsOrder_def)

lemma sorted_hd_Min:
  "sorted xs \<Longrightarrow> xs \<noteq> [] \<Longrightarrow> hd xs = Min (set xs)"
  for xs :: "int list"
  by (cases xs) (auto intro: Min_insert2 [symmetric])

lemma sorted_last_Max:
  "sorted xs \<Longrightarrow> xs \<noteq> [] \<Longrightarrow> last xs = Max (set xs)"
  for xs :: "int list"
proof (rule Max_eqI [symmetric])
  assume s: "sorted xs" and ne: "xs \<noteq> []"
  show "finite (set xs)" by simp
  show "last xs \<in> set xs" using ne by simp
  fix y assume "y \<in> set xs"
  then obtain n where n: "n < length xs" "xs ! n = y"
    by (auto simp: in_set_conv_nth)
  with s ne show "y \<le> last xs"
    by (auto simp: last_conv_nth sorted_iff_nth_mono)
qed

lemma set_sectionEvents:
  "set (sectionEvents data s) = {el \<in> set (sectionOrder s). data el \<noteq> None}"
  by (simp add: sectionEvents_def)

text \<open>For a section whose catalog range has a present event, the section step (lines 96
  to 119) completes, tags the present events of the range, and sets \<open>startTime\<close> to the
  minimum and \<open>endTime\<close> to the maximum of their times.\<close>

lemma matchSection_completes:
  assumes "\<exists>el\<in>set (sectionOrder s). data el \<noteq> None"
  shows "matchSection data i s =
     Inr (tag_events i (sectionEvents data s) data,
          s\<lparr>startTime := Min (time_of data ` {el \<in> set (sectionOrder s). data el \<noteq> None}),
            endTime := Max (time_of data ` {el \<in> set (sectionOrder s). data el \<noteq> None})\<rparr>)"
proof -
  let ?evs = "sectionEvents data s"
  let ?ts = "map (time_of data) ?evs"
  from assms have ne: "?evs \<noteq> []"
    using set_sectionEvents [of data s] by auto
  have sorted: "sorted ?ts"
    by (simp add: sectionEvents_def)
  have set_ts: "set ?ts = time_of data ` {el \<in> set (sectionOrder s). data el \<noteq> None}"
    by (simp add: set_sectionEvents)
  from ne have "hd ?evs \<in> set ?evs" and "last ?evs \<in> set ?evs"
    by simp_all
  then obtain fe le where fe: "data (hd ?evs) = Some fe" and le: "data (last ?evs) = Some le"
    by (auto simp: set_sectionEvents)
  have "time fe = hd ?ts"
    using ne fe by (simp add: hd_map time_of_def)
  also have "\<dots> = Min (set ?ts)"
    using sorted ne by (intro sorted_hd_Min) simp_all
  finally have start: "time fe = Min (time_of data ` {el \<in> set (sectionOrder s). data el \<noteq> None})"
    by (simp only: set_ts)
  have "time le = last ?ts"
    using ne le by (simp add: last_map time_of_def)
  also have "\<dots> = Max (set ?ts)"
    using sorted ne by (intro sorted_last_Max) simp_all
  finally have stop: "time le = Max (time_of data ` {el \<in> set (sectionOrder s). data el \<noteq> None})"
    by (simp only: set_ts)
  show ?thesis
    using ne fe le start stop by (simp add: matchSection_def Let_def)
qed

text \<open>The section step on the events of the server section only: the server section gets
  the bounds 100 and 250.\<close>

lemma matchSection_server_only:
  "name (getSections ! 1) = ''server'' \<and>
   (\<exists>data'. matchSection server_only 1 (getSections ! 1) =
      Inr (data', (getSections ! 1)\<lparr>startTime := 100, endTime := 250\<rparr>))"
proof -
  define s where "s = getSections ! 1"
  have order: "sectionOrder s = [''requestStart'', ''responseStart'', ''responseEnd'']"
    using sectionOrder_getSections by (simp add: s_def getSections_def)
  have present: "\<exists>el\<in>set (sectionOrder s). server_only el \<noteq> None"
    by (simp add: order server_only_def)
  have "{el \<in> set (sectionOrder s). server_only el \<noteq> None} = {''requestStart'', ''responseEnd''}"
    by (auto simp: order server_only_def)
  then have times: "time_of server_only ` {el \<in> set (sectionOrder s). server_only el \<noteq> None}
      = {100, 250}"
    by (simp add: server_only_def time_of_def fresh_event_def)
  have run: "matchSection server_only 1 s =
      Inr (tag_events 1 (sectionEvents server_only s) server_only,
           s\<lparr>startTime := Min {100, 250}, endTime := Max {100, 250}\<rparr>)"
    using matchSection_completes [OF present, of 1] unfolding times .
  have "name s = ''server''"
    by (simp add: s_def getSections_def)
  with run show ?thesis
    unfolding s_def [symmetric] by simp
qed

subsection \<open>\<open>_init\<close>\<close>

lemma blockName_catalog:
  "map blockName eventsOrder =
     [None, Some ''redirect'', Some ''redirect'', None, None, Some ''domainLookup'', None,
      Some ''connect'', None, None, None, Some ''response'', None, Some ''unloadEvent'',
      None, None, None, None, Some ''domContentLoadedEvent'', None, None, None,
      Some ''loadEvent'', None]"
  by code_simp

lemma block_starts_eq:
  "block_starts =
     [''redirectStart'', ''redirectStart'', ''domainLookupStart'', ''connectStart'',
      ''responseStart'', ''unloadEventStart'', ''domContentLoadedEventStart'',
      ''loadEventStart'']"
  by code_simp

lemma label_of_block_starts:
  "map label_of block_starts =
     [''redirect'', ''redirect'', ''domainLookup'', ''connect'', ''response'',
      ''unloadEvent'', ''domContentLoadedEvent'', ''loadEvent'']"
  by code_simp

lemma same_core_refl: "same_core d d"
  by (simp add: same_core_def)

lemma same_core_trans: "same_core d d' \<Longrightarrow> same_core d' d'' \<Longrightarrow> same_core d d''"
  by (simp add: same_core_def)

lemma same_core_present: "same_core d d' \<Longrightarrow> (d' k = None) = (d k = None)"
proof -
  assume "same_core d d'"
  then have "map_option (\<lambda>e. (time e, sectionIndex e)) (d' k) =
      map_option (\<lambda>e. (time e, sectionIndex e)) (d k)"
    by (simp add: same_core_def)
  then show ?thesis
    by (cases "d k"; cases "d' k") simp_all
qed

lemma same_core_time_of: "same_core d d' \<Longrightarrow> time_of d' k = time_of d k"
proof -
  assume "same_core d d'"
  then have "map_option (\<lambda>e. (time e, sectionIndex e)) (d' k) =
      map_option (\<lambda>e. (time e, sectionIndex e)) (d k)"
    by (simp add: same_core_def)
  then show ?thesis
    by (cases "d k"; cases "d' k") (simp_all add: time_of_def)
qed

lemma same_core_section_of: "same_core d d' \<Longrightarrow> section_of d' k = section_of d k"
proof -
  assume "same_core d d'"
  then have "map_option (\<lambda>e. (time e, sectionIndex e)) (d' k) =
      map_option (\<lambda>e. (time e, sectionIndex e)) (d k)"
    by (simp add: same_core_def)
  then show ?thesis
    by (cases "d k"; cases "d' k") (simp_all add: section_of_def)
qed

lemma same_core_row_of: "same_core d d' \<Longrightarrow> row_of secs d' evt = row_of secs d evt"
  by (simp add: row_of_def same_core_time_of same_core_section_of)

lemma same_core_label:
  "d evt = Some item \<Longrightarrow> same_core d (d(evt \<mapsto> item\<lparr>label := l, timeEnd := t\<rparr>))"
  by (simp add: same_core_def)

lemma init_loop_rows:
  assumes "init_loop ord p out = Inr (p', out')" and "timingData p = Some data"
  shows "\<exists>data'. timingData p' = Some data' \<and> same_core data data' \<and>
           sections p' = sections p \<and> totalTime p' = totalTime p \<and>
           out' = out @ map (row_of (sections p) data)
                          (filter (\<lambda>evt. data evt \<noteq> None \<and> blockName evt \<noteq> None) ord)"
  using assms
proof (induction ord arbitrary: p out data)
  case Nil
  then show ?case by (simp add: same_core_refl)
next
  case (Cons evt rest)
  show ?case
  proof (cases "data evt")
    case None
    with Cons.prems have "init_loop rest p out = Inr (p', out')"
      by simp
    from Cons.IH [OF this Cons.prems(2)] None show ?thesis
      by simp
  next
    case (Some item)
    show ?thesis
    proof (cases "blockName evt")
      case None
      with Some Cons.prems have "init_loop rest p out = Inr (p', out')"
        by simp
      from Cons.IH [OF this Cons.prems(2)] None show ?thesis
        by simp
    next
      case block: (Some eventName)
      from Cons.prems Some block obtain endItem where
        endItem: "data (eventName @ ''End'') = Some endItem"
        by (cases "data (eventName @ ''End'')") simp_all
      from Cons.prems Some block endItem obtain si where
        si: "sectionIndex item = Some si"
        by (cases "sectionIndex item") (simp_all add: Let_def)
      from Cons.prems Some block endItem si have
        rest: "init_loop rest
                 (p\<lparr>timingData := Some (data(evt \<mapsto> item\<lparr>label := Some eventName,
                                                        timeEnd := Some (time endItem)\<rparr>))\<rparr>)
                 (out @ [\<lparr>opt_color = color (sections p ! si),
                          sectionTimeBounds = (startTime (sections p ! si), endTime (sections p ! si)),
                          eventTimeBounds = (time item, time endItem),
                          opt_label = eventName\<rparr>]) = Inr (p', out')"
        by (cases "si < length (sections p)") (simp_all add: Let_def)
      let ?data2 = "data(evt \<mapsto> item\<lparr>label := Some eventName, timeEnd := Some (time endItem)\<rparr>)"
      let ?p2 = "p\<lparr>timingData := Some ?data2\<rparr>"
      let ?opts = "\<lparr>opt_color = color (sections p ! si),
                    sectionTimeBounds = (startTime (sections p ! si), endTime (sections p ! si)),
                    eventTimeBounds = (time item, time endItem),
                    opt_label = eventName\<rparr>"
      have core: "same_core data ?data2"
        using Some by (rule same_core_label)
      have row: "?opts = row_of (sections p) data evt"
        using Some block endItem si
        by (simp add: row_of_def label_of_def section_of_def time_of_def Let_def)
      have td2: "timingData ?p2 = Some ?data2"
        by simp
      from Cons.IH [OF rest td2] obtain data' where
        d': "timingData p' = Some data'" "same_core ?data2 data'" and
        frame: "sections p' = sections ?p2" "totalTime p' = totalTime ?p2" and
        out': "out' = (out @ [?opts]) @
                 map (row_of (sections ?p2) ?data2)
                   (filter (\<lambda>e. ?data2 e \<noteq> None \<and> blockName e \<noteq> None) rest)"
        by blast
      have present: "(?data2 e \<noteq> None) = (data e \<noteq> None)" for e
        using same_core_present [OF core, of e] by simp
      have tail: "map (row_of (sections p) ?data2)
              (filter (\<lambda>e. ?data2 e \<noteq> None \<and> blockName e \<noteq> None) rest) =
            map (row_of (sections p) data)
              (filter (\<lambda>e. data e \<noteq> None \<and> blockName e \<noteq> None) rest)"
      proof -
        have "row_of (sections p) ?data2 = row_of (sections p) data"
          by (rule ext) (rule same_core_row_of [OF core])
        then show ?thesis
          by (simp only: present)
      qed
      have head: "filter (\<lambda>e. data e \<noteq> None \<and> blockName e \<noteq> None) (evt # rest) =
            evt # filter (\<lambda>e. data e \<noteq> None \<and> blockName e \<noteq> None) rest"
        using Some block by simp
      have "out' = out @ map (row_of (sections p) data)
                          (filter (\<lambda>e. data e \<noteq> None \<and> blockName e \<noteq> None) (evt # rest))"
        unfolding head using out' tail by (simp add: row)
      moreover have "same_core data data'"
        using core d'(2) by (rule same_core_trans)
      moreover have "sections p' = sections p" and "totalTime p' = totalTime p"
        using frame by simp_all
      ultimately show ?thesis
        using d'(1) by blast
    qed
  qed
qed

lemma same_times_refl: "same_times d d"
  by (simp add: same_times_def)

lemma same_times_trans: "same_times d d' \<Longrightarrow> same_times d' d'' \<Longrightarrow> same_times d d''"
  by (simp add: same_times_def)

lemma same_core_times: "same_core d d' \<Longrightarrow> same_times d d'"
proof -
  assume core: "same_core d d'"
  have "map_option time (d' k) = map_option time (d k)" for k
  proof -
    from core have "map_option (\<lambda>e. (time e, sectionIndex e)) (d' k) =
        map_option (\<lambda>e. (time e, sectionIndex e)) (d k)"
      by (simp add: same_core_def)
    then show ?thesis
      by (cases "d k"; cases "d' k") simp_all
  qed
  then show ?thesis
    by (simp add: same_times_def)
qed

lemma same_times_time_of: "same_times d d' \<Longrightarrow> time_of d' k = time_of d k"
proof -
  assume "same_times d d'"
  then have "map_option time (d' k) = map_option time (d k)"
    by (simp add: same_times_def)
  then show ?thesis
    by (cases "d k"; cases "d' k") (simp_all add: time_of_def)
qed

lemma same_times_present: "same_times d d' \<Longrightarrow> (d' k = None) = (d k = None)"
proof -
  assume "same_times d d'"
  then have "map_option time (d' k) = map_option time (d k)"
    by (simp add: same_times_def)
  then show ?thesis
    by (cases "d k"; cases "d' k") simp_all
qed

lemma tag_events_times: "same_times data (tag_events i items data)"
proof (induction items arbitrary: data)
  case Nil
  show ?case by (simp add: same_times_refl)
next
  case (Cons item items)
  show ?case
  proof (cases "data item")
    case None
    with Cons.IH [of data] show ?thesis by simp
  next
    case (Some e)
    let ?d2 = "data(item \<mapsto> e\<lparr>sectionIndex := Some i\<rparr>)"
    have "same_times data ?d2"
      using Some by (simp add: same_times_def)
    moreover have "same_times ?d2 (tag_events i items ?d2)"
      by (rule Cons.IH)
    ultimately have "same_times data (tag_events i items ?d2)"
      by (rule same_times_trans)
    with Some show ?thesis
      by simp
  qed
qed

lemma matchSection_times:
  "matchSection data i s = Inr (data', s') \<Longrightarrow> same_times data data'"
  by (auto simp: matchSection_def Let_def tag_events_times split: option.splits)

lemma match_loop_times:
  "match_loop i ss data = Inr (data', ss') \<Longrightarrow> same_times data data'"
proof (induction ss arbitrary: i data ss')
  case Nil
  then show ?case by (simp add: same_times_refl)
next
  case (Cons s ss)
  from Cons.prems obtain d1 s1 ss1 where
    step: "matchSection data i s = Inr (d1, s1)" and
    rest: "match_loop (Suc i) ss d1 = Inr (data', ss1)"
    by (auto split: sum.splits prod.splits)
  from same_times_trans [OF matchSection_times [OF step] Cons.IH [OF rest]]
  show ?case .
qed

lemma same_times_present_times:
  "same_times d d' \<Longrightarrow> present_times d' s = present_times d s"
proof -
  assume times: "same_times d d'"
  have "(d' el \<noteq> None) = (d el \<noteq> None)" for el
    using same_times_present [OF times, of el] by simp
  moreover have "time_of d' = time_of d"
    by (rule ext) (rule same_times_time_of [OF times])
  ultimately show ?thesis
    by (simp add: present_times_def)
qed

text \<open>After a completed pass over the sections, every section whose range has a present
  event has the minimum and the maximum of the present times as its bounds.\<close>

lemma match_loop_bounds:
  assumes "match_loop i ss data = Inr (data', ss')"
  shows "list_all2
           (\<lambda>s s'. (\<exists>el\<in>set (sectionOrder s). data el \<noteq> None) \<longrightarrow>
                    s' = s\<lparr>startTime := Min (present_times data s),
                            endTime := Max (present_times data s)\<rparr>) ss ss'"
  using assms
proof (induction ss arbitrary: i data ss')
  case Nil
  then show ?case by simp
next
  case (Cons x xs)
  from Cons.prems obtain d1 s1 ss1 where
    step: "matchSection data i x = Inr (d1, s1)" and
    rest: "match_loop (Suc i) xs d1 = Inr (data', ss1)" and
    ss': "ss' = s1 # ss1"
    by (auto split: sum.splits prod.splits)
  note times = matchSection_times [OF step]
  have head: "s1 = x\<lparr>startTime := Min (present_times data x),
                        endTime := Max (present_times data x)\<rparr>"
    if "\<exists>el\<in>set (sectionOrder x). data el \<noteq> None"
    using step matchSection_completes [OF that, of i] by (simp add: present_times_def)
  have "(\<exists>el\<in>set (sectionOrder s). d1 el \<noteq> None) = (\<exists>el\<in>set (sectionOrder s). data el \<noteq> None)"
    for s
    using same_times_present [OF times] by simp
  with Cons.IH [OF rest] same_times_present_times [OF times]
  have "list_all2
           (\<lambda>s s'. (\<exists>el\<in>set (sectionOrder s). data el \<noteq> None) \<longrightarrow>
                    s' = s\<lparr>startTime := Min (present_times data s),
                            endTime := Max (present_times data s)\<rparr>) xs ss1"
    by simp
  with head show ?case
    by (simp add: ss')
qed

lemma init_private_rows:
  assumes "init_private w p = Inr r"
  obtains evs p1 data secs where
    "getData w p = Inr (Some evs, p1)" and "same_times evs data" and
    "rows r = map (row_of secs data)
                (filter (\<lambda>evt. data evt \<noteq> None \<and> blockName evt \<noteq> None) eventsOrder)"
proof -
  from assms obtain td p1 where get: "getData w p = Inr (td, p1)"
    by (auto simp: init_private_def split: sum.splits)
  let ?p2 = "p1\<lparr>timingData := td, sections := getSections\<rparr>"
  have secs: "sections ?p2 \<noteq> []"
    by (simp add: getSections_def)
  from assms get obtain p3 p4 out where
    match: "(if timingData ?p2 \<noteq> None \<and> sections ?p2 \<noteq> []
             then matchEventsWithSections ?p2 else Inr ?p2) = Inr p3" and
    loop: "init_loop eventsOrder p3 [] = Inr (p4, out)" and
    r: "rows r = out"
    by (auto simp: init_private_def Let_def split: sum.splits prod.splits)
  have "td \<noteq> None"
  proof
    assume "td = None"
    with match have "timingData p3 = None" by auto
    with loop show False by (simp add: eventsOrder_def)
  qed
  then obtain evs where td: "td = Some evs" by blast
  from match td secs have "matchEventsWithSections ?p2 = Inr p3"
    by simp
  then obtain data ss where
    ml: "match_loop 0 getSections evs = Inr (data, ss)" and
    p3: "p3 = ?p2\<lparr>timingData := Some data, sections := ss\<rparr>"
    using td by (auto simp: matchEventsWithSections_def split: sum.splits prod.splits)
  from p3 have td3: "timingData p3 = Some data"
    by simp
  from init_loop_rows [OF loop td3] r
  have "rows r = map (row_of (sections p3) data)
                (filter (\<lambda>evt. data evt \<noteq> None \<and> blockName evt \<noteq> None) eventsOrder)"
    by auto
  with get td match_loop_times [OF ml] that show thesis
    by blast
qed

lemma blockNames_eq:
  "blockNames =
     [''redirect'', ''domainLookup'', ''connect'', ''response'', ''unloadEvent'',
      ''domContentLoadedEvent'', ''loadEvent'']"
  by code_simp

lemma starts_labelled:
  "map (\<lambda>b. filter (\<lambda>e. label_of e = b) block_starts) blockNames =
     [[''redirectStart'', ''redirectStart''], [''domainLookupStart''], [''connectStart''],
      [''responseStart''], [''unloadEventStart''], [''domContentLoadedEventStart''],
      [''loadEventStart'']]"
  by code_simp

lemma block_starts_sorted:
  "sorted (map (\<lambda>e. indexOf eventsOrder (label_of e @ ''Start'')) block_starts)"
  by code_simp

lemma block_starts_names: "list_all (\<lambda>e. label_of e @ ''Start'' = e) block_starts"
  by code_simp

lemma present_blocks:
  "filter (\<lambda>evt. data evt \<noteq> None \<and> blockName evt \<noteq> None) eventsOrder =
     filter (\<lambda>evt. data evt \<noteq> None) block_starts"
  by (simp add: block_starts_def conj_commute)

lemma opt_label_row_of: "opt_label (row_of secs data evt) = label_of evt"
  by (simp add: row_of_def Let_def)

lemma eventTimeBounds_row_of:
  "eventTimeBounds (row_of secs data evt) =
     (time_of data evt, time_of data (label_of evt @ ''End''))"
  by (simp add: row_of_def Let_def)

lemma rows_labelled:
  "filter (\<lambda>opts. opt_label opts = b)
     (map (row_of secs data) (filter (\<lambda>evt. data evt \<noteq> None) block_starts)) =
   map (row_of secs data)
     (filter (\<lambda>evt. data evt \<noteq> None) (filter (\<lambda>e. label_of e = b) block_starts))"
  by (simp add: filter_map o_def opt_label_row_of conj_commute)

lemma late_redirect_run:
  "map_sum id (\<lambda>r. map (\<lambda>opts. (opt_label opts, eventTimeBounds opts)) (rows r))
     (init_private (window_of late_redirect) new_Profiler) =
   Inr [(''redirect'', (300, 310)), (''redirect'', (300, 310)), (''domainLookup'', (10, 40))]"
  by code_simp

text \<open>
  Claim C8. Whenever \<open>_init\<close> emits its rows, they stand in catalog order: the catalog
  indices of their start events ascend, and their start events form a subsequence of the
  catalog. The order is not the chronological one: there is a run whose rows are not
  sorted by their start offsets.
\<close>

theorem C8_catalog_order:
  "(\<forall>w p r. init_private w p = Inr r \<longrightarrow>
      sorted (map start_index (rows r)) \<and>
      subseq (map (\<lambda>opts. opt_label opts @ ''Start'') (rows r)) eventsOrder) \<and>
   (\<exists>w p r. init_private w p = Inr r \<and>
      \<not> sorted (map (\<lambda>opts. fst (eventTimeBounds opts)) (rows r)))"
proof (intro conjI allI impI)
  fix w p r
  assume "init_private w p = Inr r"
  then obtain evs p1 data secs where
    "getData w p = Inr (Some evs, p1)" and "same_times evs data" and
    "rows r = map (row_of secs data)
                (filter (\<lambda>evt. data evt \<noteq> None \<and> blockName evt \<noteq> None) eventsOrder)"
    by (rule init_private_rows)
  then have
    rows: "rows r = map (row_of secs data) (filter (\<lambda>evt. data evt \<noteq> None) block_starts)"
    by (simp only: present_blocks)
  have "map start_index (rows r) =
      map (\<lambda>e. indexOf eventsOrder (label_of e @ ''Start''))
        (filter (\<lambda>evt. data evt \<noteq> None) block_starts)"
    by (simp add: rows start_index_def opt_label_row_of)
  with block_starts_sorted show "sorted (map start_index (rows r))"
    by (simp add: sorted_filter)
  have "map (\<lambda>opts. opt_label opts @ ''Start'') (rows r) =
      map (\<lambda>e. label_of e @ ''Start'') (filter (\<lambda>evt. data evt \<noteq> None) block_starts)"
    by (simp add: rows opt_label_row_of)
  also have "\<dots> = filter (\<lambda>evt. data evt \<noteq> None) block_starts"
    using block_starts_names by (intro map_idI) (simp add: list_all_iff)
  also have "subseq \<dots> eventsOrder"
    by (simp add: block_starts_def)
  finally show "subseq (map (\<lambda>opts. opt_label opts @ ''Start'') (rows r)) eventsOrder" .
next
  from late_redirect_run obtain r where
    run: "init_private (window_of late_redirect) new_Profiler = Inr r" and
    shown: "map (\<lambda>opts. (opt_label opts, eventTimeBounds opts)) (rows r) =
       [(''redirect'', (300, 310)), (''redirect'', (300, 310)), (''domainLookup'', (10, 40))]"
    by (cases "init_private (window_of late_redirect) new_Profiler") simp_all
  have "map (\<lambda>opts. fst (eventTimeBounds opts)) (rows r) =
      map (fst \<circ> snd) (map (\<lambda>opts. (opt_label opts, eventTimeBounds opts)) (rows r))"
    by simp
  also have "\<dots> = [300, 300, 10]"
    by (simp only: shown) simp
  finally have "\<not> sorted (map (\<lambda>opts. fst (eventTimeBounds opts)) (rows r))"
    by simp
  with run show "\<exists>w p r. init_private w p = Inr r \<and>
      \<not> sorted (map (\<lambda>opts. fst (eventTimeBounds opts)) (rows r))"
    by blast
qed

theorem C8_catalog_order_witness:
  "\<exists>r. init_private (window_of late_redirect) new_Profiler = Inr r \<and>
     map (\<lambda>opts. (opt_label opts, eventTimeBounds opts)) (rows r) =
       [(''redirect'', (300, 310)), (''redirect'', (300, 310)), (''domainLookup'', (10, 40))] \<and>
     sorted (map start_index (rows r)) \<and>
     subseq (map (\<lambda>opts. opt_label opts @ ''Start'') (rows r)) eventsOrder"
proof -
  from late_redirect_run obtain r where
    run: "init_private (window_of late_redirect) new_Profiler = Inr r" and
    rows: "map (\<lambda>opts. (opt_label opts, eventTimeBounds opts)) (rows r) =
       [(''redirect'', (300, 310)), (''redirect'', (300, 310)), (''domainLookup'', (10, 40))]"
    by (cases "init_private (window_of late_redirect) new_Profiler") simp_all
  have "sorted (map start_index (rows r)) \<and>
      subseq (map (\<lambda>opts. opt_label opts @ ''Start'') (rows r)) eventsOrder"
    using C8_catalog_order [THEN conjunct1, rule_format, OF run] .
  with run rows show ?thesis
    by (intro exI [of _ r] conjI) simp_all
qed

lemma init_private_InrE:
  assumes "init_private w p = Inr r"
  obtains evs p1 data ss p4 where
    "getData w p = Inr (Some evs, p1)" and
    "match_loop 0 getSections evs = Inr (data, ss)" and
    "init_loop eventsOrder (p1\<lparr>timingData := Some data, sections := ss\<rparr>) [] = Inr (p4, rows r)"
proof -
  from assms obtain td p1 where get: "getData w p = Inr (td, p1)"
    by (auto simp: init_private_def split: sum.splits)
  let ?p2 = "p1\<lparr>timingData := td, sections := getSections\<rparr>"
  have secs: "sections ?p2 \<noteq> []"
    by (simp add: getSections_def)
  from assms get obtain p3 p4 out where
    match: "(if timingData ?p2 \<noteq> None \<and> sections ?p2 \<noteq> []
             then matchEventsWithSections ?p2 else Inr ?p2) = Inr p3" and
    loop: "init_loop eventsOrder p3 [] = Inr (p4, out)" and
    r: "rows r = out"
    by (auto simp: init_private_def Let_def split: sum.splits prod.splits)
  have "td \<noteq> None"
  proof
    assume "td = None"
    with match have "timingData p3 = None" by auto
    with loop show False by (simp add: eventsOrder_def)
  qed
  then obtain evs where td: "td = Some evs" by blast
  from match td secs have "matchEventsWithSections ?p2 = Inr p3"
    by simp
  then obtain data ss where
    ml: "match_loop 0 getSections evs = Inr (data, ss)" and
    p3: "p3 = ?p2\<lparr>timingData := Some data, sections := ss\<rparr>"
    using td by (auto simp: matchEventsWithSections_def split: sum.splits prod.splits)
  from p3 have "p3 = p1\<lparr>timingData := Some data, sections := ss\<rparr>"
    by simp
  with loop r get td ml that show thesis
    by blast
qed

lemma init_loop_paired:
  assumes "init_loop ord p out = Inr (p', out')" and "timingData p = Some data"
    and "evt \<in> set ord" and "data evt \<noteq> None" and "blockName evt = Some b"
  shows "data (b @ ''End'') \<noteq> None"
  using assms
proof (induction ord arbitrary: p out data)
  case Nil
  then show ?case by simp
next
  case (Cons x rest)
  show ?case
  proof (cases "data x")
    case None
    with Cons.prems have "init_loop rest p out = Inr (p', out')" and "evt \<in> set rest"
      by auto
    from Cons.IH [OF this(1) Cons.prems(2) this(2) Cons.prems(4,5)] show ?thesis .
  next
    case (Some item)
    show ?thesis
    proof (cases "blockName x")
      case None
      with Some Cons.prems have "init_loop rest p out = Inr (p', out')" and "evt \<in> set rest"
        by auto
      from Cons.IH [OF this(1) Cons.prems(2) this(2) Cons.prems(4,5)] show ?thesis .
    next
      case block: (Some eventName)
      from Cons.prems(1,2) Some block obtain endItem where
        endItem: "data (eventName @ ''End'') = Some endItem"
        by (cases "data (eventName @ ''End'')") simp_all
      show ?thesis
      proof (cases "evt = x")
        case True
        with block Cons.prems(5) endItem show ?thesis by simp
      next
        case False
        with Cons.prems(3) have mem: "evt \<in> set rest" by simp
        let ?data2 = "data(x \<mapsto> item\<lparr>label := Some eventName, timeEnd := Some (time endItem)\<rparr>)"
        let ?p2 = "p\<lparr>timingData := Some ?data2\<rparr>"
        from Cons.prems(1,2) Some block endItem obtain si where
          si: "sectionIndex item = Some si"
          by (cases "sectionIndex item") (simp_all add: Let_def)
        from Cons.prems(1,2) Some block endItem si obtain out2 where
          rest: "init_loop rest ?p2 out2 = Inr (p', out')"
          by (cases "si < length (sections p)") (simp_all add: Let_def)
        have core: "same_core data ?data2"
          using Some by (rule same_core_label)
        have td2: "timingData ?p2 = Some ?data2"
          by simp
        from Cons.prems(4) same_core_present [OF core, of evt] have "?data2 evt \<noteq> None"
          by simp
        from Cons.IH [OF rest td2 mem this Cons.prems(5)]
        have "?data2 (b @ ''End'') \<noteq> None" .
        with same_core_present [OF core, of "b @ ''End''"] show ?thesis
          by simp
      qed
    qed
  qed
qed

lemma matchSection_nonempty:
  assumes "matchSection data i s = Inr (data', s')"
  shows "(\<exists>el\<in>set (sectionOrder s). data el \<noteq> None) \<or> data ''undefined'' \<noteq> None"
proof (cases "sectionEvents data s = []")
  case True
  with assms show ?thesis
    by (auto simp: matchSection_def Let_def split: option.splits)
next
  case False
  then obtain el where "el \<in> set (sectionEvents data s)"
    by (cases "sectionEvents data s") auto
  then show ?thesis
    by (auto simp: set_sectionEvents)
qed

lemma match_loop_nonempty:
  assumes "match_loop i ss data = Inr (data', ss')" and "s \<in> set ss"
  shows "(\<exists>el\<in>set (sectionOrder s). data el \<noteq> None) \<or> data ''undefined'' \<noteq> None"
  using assms
proof (induction ss arbitrary: i data ss')
  case Nil
  then show ?case by simp
next
  case (Cons x xs)
  from Cons.prems(1) obtain d1 s1 ss1 where
    step: "matchSection data i x = Inr (d1, s1)" and
    rest: "match_loop (Suc i) xs d1 = Inr (data', ss1)"
    by (auto split: sum.splits prod.splits)
  show ?case
  proof (cases "s = x")
    case True
    with matchSection_nonempty [OF step] show ?thesis by simp
  next
    case False
    with Cons.prems(2) have "s \<in> set xs" by simp
    from Cons.IH [OF rest this]
    have "(\<exists>el\<in>set (sectionOrder s). d1 el \<noteq> None) \<or> d1 ''undefined'' \<noteq> None" .
    with same_times_present [OF matchSection_times [OF step]] show ?thesis
      by simp
  qed
qed

lemma match_loop_completes:
  assumes "\<forall>s\<in>set ss. \<exists>el\<in>set (sectionOrder s). data el \<noteq> None"
  shows "\<exists>data' ss'. match_loop i ss data = Inr (data', ss')"
  using assms
proof (induction ss arbitrary: i data)
  case Nil
  show ?case by simp
next
  case (Cons x xs)
  from Cons.prems have "\<exists>el\<in>set (sectionOrder x). data el \<noteq> None"
    by simp
  from matchSection_completes [OF this, of i] obtain d1 s1 where
    step: "matchSection data i x = Inr (d1, s1)"
    by blast
  have "\<forall>s\<in>set xs. \<exists>el\<in>set (sectionOrder s). d1 el \<noteq> None"
    using Cons.prems same_times_present [OF matchSection_times [OF step]] by simp
  from Cons.IH [OF this, of "Suc i"] obtain d2 ss2 where
    "match_loop (Suc i) xs d1 = Inr (d2, ss2)"
    by blast
  with step show ?case
    by simp
qed

lemma tag_events_keeps:
  "tagged_below n data el \<Longrightarrow> i < n \<Longrightarrow> tagged_below n (tag_events i items data) el"
proof (induction items arbitrary: data)
  case Nil
  then show ?case by simp
next
  case (Cons item items)
  show ?case
  proof (cases "data item")
    case None
    with Cons show ?thesis by simp
  next
    case (Some e)
    let ?d2 = "data(item \<mapsto> e\<lparr>sectionIndex := Some i\<rparr>)"
    from Cons.prems have t2: "tagged_below n ?d2 el"
      by (simp add: tagged_below_def)
    have "tagged_below n (tag_events i items ?d2) el"
      by (rule Cons.IH [OF t2 Cons.prems(2)])
    with Some show ?thesis
      by simp
  qed
qed

lemma tag_events_tags:
  "el \<in> set items \<Longrightarrow> data el \<noteq> None \<Longrightarrow> i < n \<Longrightarrow>
   tagged_below n (tag_events i items data) el"
proof (induction items arbitrary: data)
  case Nil
  then show ?case by simp
next
  case (Cons item items)
  show ?case
  proof (cases "data item")
    case None
    with Cons.prems have "el \<in> set items" by auto
    from Cons.IH [where data = data, OF this Cons.prems(2,3)] None show ?thesis
      by simp
  next
    case (Some e)
    let ?d2 = "data(item \<mapsto> e\<lparr>sectionIndex := Some i\<rparr>)"
    show ?thesis
    proof (cases "el = item")
      case True
      with Cons.prems(3) have t2: "tagged_below n ?d2 el"
        by (simp add: tagged_below_def)
      have "tagged_below n (tag_events i items ?d2) el"
        by (rule tag_events_keeps [OF t2 Cons.prems(3)])
      with Some show ?thesis
        by simp
    next
      case False
      with Cons.prems have mem: "el \<in> set items" and present: "?d2 el \<noteq> None"
        by simp_all
      have "tagged_below n (tag_events i items ?d2) el"
        by (rule Cons.IH [where data = ?d2, OF mem present Cons.prems(3)])
      with Some show ?thesis
        by simp
    qed
  qed
qed

lemma matchSection_result:
  "matchSection data i s = Inr (data', s') \<Longrightarrow> data' = tag_events i (sectionEvents data s) data"
  by (auto simp: matchSection_def Let_def split: option.splits)

lemma match_loop_keeps:
  assumes "match_loop i ss data = Inr (data', ss')" and "tagged_below n data el"
    and "i + length ss \<le> n"
  shows "tagged_below n data' el"
  using assms
proof (induction ss arbitrary: i data ss')
  case Nil
  then show ?case by simp
next
  case (Cons x xs)
  from Cons.prems(1) obtain d1 s1 ss1 where
    step: "matchSection data i x = Inr (d1, s1)" and
    rest: "match_loop (Suc i) xs d1 = Inr (data', ss1)"
    by (auto split: sum.splits prod.splits)
  from Cons.prems(3) have i: "i < n" and n: "Suc i + length xs \<le> n"
    by simp_all
  have "tagged_below n d1 el"
    unfolding matchSection_result [OF step] using Cons.prems(2) i by (rule tag_events_keeps)
  from Cons.IH [OF rest this n] show ?case .
qed

lemma match_loop_tags:
  assumes "match_loop i ss data = Inr (data', ss')" and "s \<in> set ss"
    and "el \<in> set (sectionOrder s)" and "data el \<noteq> None" and "i + length ss \<le> n"
  shows "tagged_below n data' el"
  using assms
proof (induction ss arbitrary: i data ss')
  case Nil
  then show ?case by simp
next
  case (Cons x xs)
  from Cons.prems(1) obtain d1 s1 ss1 where
    step: "matchSection data i x = Inr (d1, s1)" and
    rest: "match_loop (Suc i) xs d1 = Inr (data', ss1)"
    by (auto split: sum.splits prod.splits)
  from Cons.prems(5) have i: "i < n" and n: "Suc i + length xs \<le> n"
    by simp_all
  show ?case
  proof (cases "s = x")
    case True
    with Cons.prems(3,4) have "el \<in> set (sectionEvents data x)"
      by (simp add: set_sectionEvents)
    from tag_events_tags [where data = data, OF this Cons.prems(4) i]
    have "tagged_below n d1 el"
      by (simp add: matchSection_result [OF step])
    from match_loop_keeps [OF rest this n] show ?thesis .
  next
    case False
    with Cons.prems(2) have mem: "s \<in> set xs" by simp
    from Cons.prems(4) same_times_present [OF matchSection_times [OF step], of el]
    have "d1 el \<noteq> None" by simp
    from Cons.IH [OF rest mem Cons.prems(3) this n] show ?thesis .
  qed
qed

lemma match_loop_length: "match_loop i ss data = Inr (data', ss') \<Longrightarrow> length ss' = length ss"
  by (induction ss arbitrary: i data ss') (auto split: sum.splits prod.splits)

lemma catalog_covered: "evt \<in> set eventsOrder \<Longrightarrow> \<exists>s\<in>set getSections. evt \<in> set (sectionOrder s)"
proof -
  have "concat (map sectionOrder getSections) = eventsOrder"
    by (simp add: sectionOrder_getSections eventsOrder_def)
  moreover assume "evt \<in> set eventsOrder"
  ultimately have "evt \<in> set (concat (map sectionOrder getSections))"
    by simp
  then show ?thesis
    by auto
qed

lemma same_core_tagged: "same_core d d' \<Longrightarrow> tagged_below n d' el = tagged_below n d el"
proof -
  assume "same_core d d'"
  then have "map_option (\<lambda>e. (time e, sectionIndex e)) (d' el) =
      map_option (\<lambda>e. (time e, sectionIndex e)) (d el)"
    by (simp add: same_core_def)
  then show ?thesis
    by (cases "d el"; cases "d' el") (simp_all add: tagged_below_def)
qed

lemma same_core_loop_ok: "same_core d d' \<Longrightarrow> loop_ok n d' evt = loop_ok n d evt"
proof -
  assume core: "same_core d d'"
  note present = same_core_present [OF core] and tagged = same_core_tagged [OF core]
  show ?thesis
  proof (cases "d evt")
    case None
    with present [of evt] have "d' evt = None" by simp
    with None show ?thesis by (simp add: loop_ok_def)
  next
    case (Some item)
    with present [of evt] obtain item' where item': "d' evt = Some item'"
      by (cases "d' evt") simp_all
    show ?thesis
    proof (cases "blockName evt")
      case None
      with Some item' show ?thesis by (simp add: loop_ok_def)
    next
      case block: (Some b)
      with Some item' present [of "b @ ''End''"] tagged [of n evt] show ?thesis
        by (simp add: loop_ok_def)
    qed
  qed
qed

lemma init_loop_completes:
  assumes "timingData p = Some data"
    and "list_all (loop_ok (length (sections p)) data) ord"
  shows "\<exists>p' out'. init_loop ord p out = Inr (p', out')"
  using assms
proof (induction ord arbitrary: p out data)
  case Nil
  show ?case by simp
next
  case (Cons x rest)
  from Cons.prems(2) have head: "loop_ok (length (sections p)) data x"
    and later: "list_all (loop_ok (length (sections p)) data) rest"
    by simp_all
  have skip: ?case if "init_loop (x # rest) p out = init_loop rest p out"
  proof -
    have "\<exists>p' out'. init_loop rest p out = Inr (p', out')"
      using Cons.prems(1) later by (rule Cons.IH)
    with that show ?thesis by simp
  qed
  show ?case
  proof (cases "data x")
    case None
    with Cons.prems(1) show ?thesis
      by (intro skip) simp
  next
    case (Some item)
    show ?thesis
    proof (cases "blockName x")
      case None
      with Cons.prems(1) Some show ?thesis
        by (intro skip) simp
    next
      case block: (Some eventName)
      from head Some block
      have "data (eventName @ ''End'') \<noteq> None" and
        "tagged_below (length (sections p)) data x"
        by (simp_all add: loop_ok_def)
      with Some obtain endItem si where
        endItem: "data (eventName @ ''End'') = Some endItem" and
        si: "sectionIndex item = Some si" "si < length (sections p)"
        by (auto simp: tagged_below_def split: option.splits)
      let ?data2 = "data(x \<mapsto> item\<lparr>label := Some eventName, timeEnd := Some (time endItem)\<rparr>)"
      let ?p2 = "p\<lparr>timingData := Some ?data2\<rparr>"
      let ?out2 = "out @ [\<lparr>opt_color = color (sections p ! si),
                          sectionTimeBounds = (startTime (sections p ! si), endTime (sections p ! si)),
                          eventTimeBounds = (time item, time endItem),
                          opt_label = eventName\<rparr>]"
      have core: "same_core data ?data2"
        using Some by (rule same_core_label)
      have td2: "timingData ?p2 = Some ?data2"
        by simp
      have "loop_ok (length (sections p)) ?data2 = loop_ok (length (sections p)) data"
        by (rule ext) (rule same_core_loop_ok [OF core])
      with later have ok2: "list_all (loop_ok (length (sections ?p2)) ?data2) rest"
        by simp
      have "\<exists>p' out'. init_loop rest ?p2 ?out2 = Inr (p', out')"
        using td2 ok2 by (rule Cons.IH)
      with Cons.prems(1) Some block endItem si show ?thesis
        by (simp add: Let_def)
    qed
  qed
qed

lemma init_private_completes:
  assumes "getData w p = Inr (Some evs, p1)" and "well_formed evs"
  shows "\<exists>r. init_private w p = Inr r"
proof -
  from assms(2) have
    sections: "\<forall>s\<in>set getSections. \<exists>el\<in>set (sectionOrder s). evs el \<noteq> None" and
    paired: "\<And>evt b. evt \<in> set eventsOrder \<Longrightarrow> evs evt \<noteq> None \<Longrightarrow>
        blockName evt = Some b \<Longrightarrow> evs (b @ ''End'') \<noteq> None"
    by (auto simp: well_formed_def split: option.splits)
  from match_loop_completes [OF sections, of 0] obtain data ss where
    ml: "match_loop 0 getSections evs = Inr (data, ss)"
    by blast
  note times = match_loop_times [OF ml]
  have len: "length ss = length getSections"
    using ml by (rule match_loop_length)
  let ?p3 = "p1\<lparr>timingData := Some data, sections := ss\<rparr>"
  have td3: "timingData ?p3 = Some data"
    by simp
  have "loop_ok (length (sections ?p3)) data evt" if mem: "evt \<in> set eventsOrder" for evt
  proof (cases "data evt")
    case None
    then show ?thesis by (simp add: loop_ok_def)
  next
    case (Some item)
    show ?thesis
    proof (cases "blockName evt")
      case None
      with Some show ?thesis by (simp add: loop_ok_def)
    next
      case block: (Some b)
      from Some same_times_present [OF times, of evt] have present: "evs evt \<noteq> None"
        by simp
      from paired [OF mem present block] same_times_present [OF times, of "b @ ''End''"]
      have "data (b @ ''End'') \<noteq> None"
        by simp
      moreover from catalog_covered [OF mem] obtain s where
        s: "s \<in> set getSections" "evt \<in> set (sectionOrder s)"
        by blast
      have "tagged_below (length getSections) data evt"
        using ml s present by (rule match_loop_tags) simp
      ultimately show ?thesis
        using Some block by (simp add: loop_ok_def len)
    qed
  qed
  then have "list_all (loop_ok (length (sections ?p3)) data) eventsOrder"
    by (simp add: list_all_iff)
  from init_loop_completes [OF td3 this, of "[]"] obtain p4 out where
    loop: "init_loop eventsOrder ?p3 [] = Inr (p4, out)"
    by blast
  have ne: "getSections \<noteq> []"
    by (simp add: getSections_def)
  have "matchEventsWithSections (p1\<lparr>timingData := Some evs, sections := getSections\<rparr>) =
      Inr ?p3"
    using ml by (simp add: matchEventsWithSections_def)
  with assms(1) loop ne
  have "init_private w p = Inr \<lparr>final = p4, rows = out, html = concat (map output_line out)\<rparr>"
    by (simp add: init_private_def)
  then show ?thesis ..
qed

lemma starts_of_label:
  "filter (\<lambda>e. label_of e = ''redirect'') block_starts = [''redirectStart'', ''redirectStart'']"
  "filter (\<lambda>e. label_of e = ''domainLookup'') block_starts = [''domainLookupStart'']"
  "filter (\<lambda>e. label_of e = ''connect'') block_starts = [''connectStart'']"
  "filter (\<lambda>e. label_of e = ''response'') block_starts = [''responseStart'']"
  "filter (\<lambda>e. label_of e = ''unloadEvent'') block_starts = [''unloadEventStart'']"
  "filter (\<lambda>e. label_of e = ''domContentLoadedEvent'') block_starts =
     [''domContentLoadedEventStart'']"
  "filter (\<lambda>e. label_of e = ''loadEvent'') block_starts = [''loadEventStart'']"
  using starts_labelled unfolding blockNames_eq by simp_all

lemma no_end_label: "filter (\<lambda>e. label_of e = ''domainLookupEnd'') block_starts = []"
  by code_simp

lemma label_of_domainLookupStart: "label_of ''domainLookupStart'' = ''domainLookup''"
  by code_simp

lemma init_private_rows_of:
  assumes "init_private w p = Inr r" and "getData w p = Inr (Some evs, p1)"
  obtains data secs where "same_times evs data" and
    "rows r = map (row_of secs data) (filter (\<lambda>evt. data evt \<noteq> None) block_starts)"
proof -
  from assms(1) obtain evs' p1' data secs where
    "getData w p = Inr (Some evs', p1')" and "same_times evs' data" and
    "rows r = map (row_of secs data)
                (filter (\<lambda>evt. data evt \<noteq> None \<and> blockName evt \<noteq> None) eventsOrder)"
    by (rule init_private_rows)
  with assms(2) have "same_times evs data" and
    "rows r = map (row_of secs data) (filter (\<lambda>evt. data evt \<noteq> None) block_starts)"
    by (simp_all only: present_blocks sum.inject prod.inject option.inject)
  then show thesis
    by (rule that)
qed

lemma time_of_map_option: "map_option time (d k) = Some a \<Longrightarrow> time_of d k = a"
  by (cases "d k") (simp_all add: time_of_def)

text \<open>
  The pairing of \<open>domainLookupStart\<close> with \<open>domainLookupEnd\<close>. On a captured event set that
  holds them at the offsets \<open>a\<close> and \<open>b\<close>: whenever \<open>_init\<close> completes, exactly one row is
  labelled \<open>domainLookup\<close>, its event bounds are \<open>(a, b)\<close>, and no row is labelled
  \<open>domainLookupEnd\<close>; and \<open>_init\<close> does complete when the event set is well formed.
\<close>

lemma pairing_when_complete:
  assumes "getData w p = Inr (Some evs, p1)"
    and "map_option time (evs ''domainLookupStart'') = Some a"
    and "map_option time (evs ''domainLookupEnd'') = Some b"
  shows "(well_formed evs \<longrightarrow> (\<exists>r. init_private w p = Inr r)) \<and>
         (\<forall>r. init_private w p = Inr r \<longrightarrow>
            (\<exists>row. filter (\<lambda>opts. opt_label opts = ''domainLookup'') (rows r) = [row] \<and>
               eventTimeBounds row = (a, b)) \<and>
            filter (\<lambda>opts. opt_label opts = ''domainLookupEnd'') (rows r) = [])"
proof (intro conjI impI allI)
  assume "well_formed evs"
  with assms(1) show "\<exists>r. init_private w p = Inr r"
    by (rule init_private_completes)
next
  fix r
  assume run: "init_private w p = Inr r"
  from run assms(1) obtain data secs where
    times: "same_times evs data" and
    rows: "rows r = map (row_of secs data) (filter (\<lambda>evt. data evt \<noteq> None) block_starts)"
    by (rule init_private_rows_of)
  from assms(2) have "evs ''domainLookupStart'' \<noteq> None"
    by auto
  with same_times_present [OF times] have present: "data ''domainLookupStart'' \<noteq> None"
    by simp
  have a: "time_of data ''domainLookupStart'' = a"
    using same_times_time_of [OF times] time_of_map_option [of evs "''domainLookupStart''" a] assms(2)
    by simp
  have b: "time_of data ''domainLookupEnd'' = b"
    using same_times_time_of [OF times] time_of_map_option [of evs "''domainLookupEnd''" b] assms(3)
    by simp
  have one: "filter (\<lambda>opts. opt_label opts = ''domainLookup'') (rows r) =
      [row_of secs data ''domainLookupStart'']"
    unfolding rows rows_labelled starts_of_label using present by simp
  have bounds: "eventTimeBounds (row_of secs data ''domainLookupStart'') = (a, b)"
    by (simp add: eventTimeBounds_row_of label_of_domainLookupStart a b)
  from one bounds
  show "\<exists>row. filter (\<lambda>opts. opt_label opts = ''domainLookup'') (rows r) = [row] \<and>
               eventTimeBounds row = (a, b)"
    by blast
  show "filter (\<lambda>opts. opt_label opts = ''domainLookupEnd'') (rows r) = []"
    unfolding rows rows_labelled no_end_label by simp
qed

lemma complete_load_well_formed:
  "well_formed (fst (getData_loop (timing_of complete_load) (origin (timing_of complete_load))
                       (getPerfObjKeys (timing_of complete_load)) (Map.empty, 0)))"
  by code_simp

lemma pairing_complete_load:
  "\<exists>r. init_private (window_of complete_load) new_Profiler = Inr r \<and>
     (\<exists>row. filter (\<lambda>opts. opt_label opts = ''domainLookup'') (rows r) = [row] \<and>
        eventTimeBounds row = (10, 40)) \<and>
     filter (\<lambda>opts. opt_label opts = ''domainLookupEnd'') (rows r) = []"
proof -
  let ?td = "timing_of complete_load"
  let ?r = "getData_loop ?td (origin ?td) (getPerfObjKeys ?td) (Map.empty, 0)"
  have origin: "origin ?td = 1000"
    by (simp add: origin_def get_prop_def timing_of_def complete_load_def)
  have "fst ?r ''domainLookupStart'' = Some (fresh_event (1010 - origin ?td))"
    by (rule getData_loop_present)
      (simp_all add: getPerfObjKeys_def timing_of_def get_prop_def complete_load_def)
  then have a: "map_option time (fst ?r ''domainLookupStart'') = Some 10"
    by (simp add: origin fresh_event_def)
  have "fst ?r ''domainLookupEnd'' = Some (fresh_event (1040 - origin ?td))"
    by (rule getData_loop_present)
      (simp_all add: getPerfObjKeys_def timing_of_def get_prop_def complete_load_def)
  then have b: "map_option time (fst ?r ''domainLookupEnd'') = Some 40"
    by (simp add: origin fresh_event_def)
  note both = pairing_when_complete [OF getData_window_of a b, of new_Profiler]
  from both [THEN conjunct1, THEN mp, OF complete_load_well_formed] obtain r where
    run: "init_private (window_of complete_load) new_Profiler = Inr r"
    by blast
  from both [THEN conjunct2, rule_format, OF run] run show ?thesis
    by blast
qed

text \<open>
  The rows of a redirect. Whenever \<open>_init\<close> completes: if the captured events hold
  \<open>redirectStart\<close> and \<open>redirectEnd\<close>, the rows labelled \<open>redirect\<close> are two equal rows, the
  catalog listing \<open>redirectStart\<close> twice; and for every other block name of the catalog
  whose start and end events are both captured, exactly one row carries that label. And
  \<open>_init\<close> does complete when the event set is well formed.
\<close>

lemma redirect_twice_when_complete:
  assumes "getData w p = Inr (Some evs, p1)"
  shows "(well_formed evs \<longrightarrow> (\<exists>r. init_private w p = Inr r)) \<and>
         (\<forall>r. init_private w p = Inr r \<longrightarrow>
            (evs ''redirectStart'' \<noteq> None \<and> evs ''redirectEnd'' \<noteq> None \<longrightarrow>
               (\<exists>row. filter (\<lambda>opts. opt_label opts = ''redirect'') (rows r) = [row, row])) \<and>
            (\<forall>b\<in>set blockNames.
               b \<noteq> ''redirect'' \<and> evs (b @ ''Start'') \<noteq> None \<and> evs (b @ ''End'') \<noteq> None \<longrightarrow>
               length (filter (\<lambda>opts. opt_label opts = b) (rows r)) = 1))"
proof (intro conjI impI allI)
  assume "well_formed evs"
  with assms show "\<exists>r. init_private w p = Inr r"
    by (rule init_private_completes)
next
  fix r
  assume run: "init_private w p = Inr r"
  from run assms obtain data secs where
    times: "same_times evs data" and
    rows: "rows r = map (row_of secs data) (filter (\<lambda>evt. data evt \<noteq> None) block_starts)"
    by (rule init_private_rows_of)
  have present: "data k \<noteq> None" if "evs k \<noteq> None" for k
    using same_times_present [OF times, of k] that by simp
  {
    assume "evs ''redirectStart'' \<noteq> None \<and> evs ''redirectEnd'' \<noteq> None"
    then have "evs ''redirectStart'' \<noteq> None" ..
    from present [OF this]
    have "filter (\<lambda>opts. opt_label opts = ''redirect'') (rows r) =
        [row_of secs data ''redirectStart'', row_of secs data ''redirectStart'']"
      unfolding rows rows_labelled starts_of_label by simp
    then show "\<exists>row. filter (\<lambda>opts. opt_label opts = ''redirect'') (rows r) = [row, row]"
      by blast
  }
  have once: "length (filter (\<lambda>opts. opt_label opts = b) (rows r)) = 1"
    if "filter (\<lambda>e. label_of e = b) block_starts = [s]" and "evs s \<noteq> None" for b s
    unfolding rows rows_labelled that(1) using present [OF that(2)] by simp
  show "\<forall>b\<in>set blockNames.
      b \<noteq> ''redirect'' \<and> evs (b @ ''Start'') \<noteq> None \<and> evs (b @ ''End'') \<noteq> None \<longrightarrow>
      length (filter (\<lambda>opts. opt_label opts = b) (rows r)) = 1"
    unfolding blockNames_eq
    by (simp add: once [OF starts_of_label(2)] once [OF starts_of_label(3)]
        once [OF starts_of_label(4)] once [OF starts_of_label(5)]
        once [OF starts_of_label(6)] once [OF starts_of_label(7)])
qed

lemma redirected_load_labels:
  "map_sum id (\<lambda>r. map opt_label (rows r))
     (init_private (window_of redirected_load) new_Profiler) =
   Inr [''redirect'', ''redirect'', ''domainLookup'', ''connect'', ''response'',
        ''domContentLoadedEvent'', ''loadEvent'']"
  by code_simp

lemma redirected_load_well_formed:
  "well_formed (fst (getData_loop (timing_of redirected_load) (origin (timing_of redirected_load))
                       (getPerfObjKeys (timing_of redirected_load)) (Map.empty, 0)))"
  by code_simp

lemma redirected_load_present:
  "list_all (\<lambda>k. fst (getData_loop (timing_of redirected_load) (origin (timing_of redirected_load))
                       (getPerfObjKeys (timing_of redirected_load)) (Map.empty, 0)) k \<noteq> None)
     [''redirectStart'', ''redirectEnd'', ''connectStart'', ''connectEnd'']"
  by code_simp

lemma redirect_twice_redirected_load:
  "\<exists>r. init_private (window_of redirected_load) new_Profiler = Inr r \<and>
     map opt_label (rows r) =
       [''redirect'', ''redirect'', ''domainLookup'', ''connect'', ''response'',
        ''domContentLoadedEvent'', ''loadEvent''] \<and>
     (\<exists>row. filter (\<lambda>opts. opt_label opts = ''redirect'') (rows r) = [row, row]) \<and>
     length (filter (\<lambda>opts. opt_label opts = ''connect'') (rows r)) = 1"
proof -
  let ?td = "timing_of redirected_load"
  let ?r = "getData_loop ?td (origin ?td) (getPerfObjKeys ?td) (Map.empty, 0)"
  note both = redirect_twice_when_complete [OF getData_window_of, of redirected_load new_Profiler]
  from both [THEN conjunct1, THEN mp, OF redirected_load_well_formed] obtain r where
    run: "init_private (window_of redirected_load) new_Profiler = Inr r"
    by blast
  from redirected_load_labels run have
    labels: "map opt_label (rows r) =
       [''redirect'', ''redirect'', ''domainLookup'', ''connect'', ''response'',
        ''domContentLoadedEvent'', ''loadEvent'']"
    by simp
  note rest = both [THEN conjunct2, rule_format, OF run]
  have twice: "\<exists>row. filter (\<lambda>opts. opt_label opts = ''redirect'') (rows r) = [row, row]"
    by (rule rest [THEN conjunct1, THEN mp]) (use redirected_load_present in simp)
  have once: "length (filter (\<lambda>opts. opt_label opts = ''connect'') (rows r)) = 1"
  proof (rule rest [THEN conjunct2, rule_format, of "''connect''"])
    show "''connect'' \<in> set blockNames"
      by (simp add: blockNames_eq)
    show "''connect'' \<noteq> ''redirect'' \<and> fst ?r (''connect'' @ ''Start'') \<noteq> None \<and>
        fst ?r (''connect'' @ ''End'') \<noteq> None"
      using redirected_load_present by simp
  qed
  show ?thesis
    by (intro exI [of _ r] conjI run labels twice once)
qed

subsection \<open>Exceptions that leave \<open>_init\<close>\<close>

text \<open>
  Claim C1. A start event whose catalog end event is absent was to be dropped silently.
  Line 195 tests only that the catalog has the end name, and line 197 then reads \<open>.time\<close>
  of the missing entry. So \<open>_init\<close> raises \<open>TypeError\<close> on every captured event set that
  holds a catalog start event without its end event; in particular for a lookup whose
  end is missing, and for a page read inside its \<open>load\<close> handler.
\<close>

theorem C1_unpaired_start_throws:
  assumes "getData w p = Inr (Some evs, p1)"
    and "start \<in> set eventsOrder" and "evs start \<noteq> None"
    and "blockName start = Some b" and "evs (b @ ''End'') = None"
  shows "init_private w p = Inl TypeError"
proof (cases "init_private w p")
  case (Inl e)
  then show ?thesis by (cases e) simp
next
  case (Inr r)
  then obtain evs' p1' data ss p4 where
    get: "getData w p = Inr (Some evs', p1')" and
    ml: "match_loop 0 getSections evs' = Inr (data, ss)" and
    loop: "init_loop eventsOrder (p1'\<lparr>timingData := Some data, sections := ss\<rparr>) [] =
             Inr (p4, rows r)"
    by (rule init_private_InrE)
  from get assms(1) have evs: "evs' = evs" by simp
  note times = match_loop_times [OF ml, unfolded evs]
  from assms(3) same_times_present [OF times, of start] have present: "data start \<noteq> None"
    by simp
  have td: "timingData (p1'\<lparr>timingData := Some data, sections := ss\<rparr>) = Some data"
    by simp
  from init_loop_paired [OF loop td assms(2) present assms(4)]
  have "data (b @ ''End'') \<noteq> None" .
  with same_times_present [OF times, of "b @ ''End''"] assms(5) show ?thesis
    by simp
qed

theorem C1_unpaired_start_throws_witness:
  "init_private (window_of unpaired_lookup) new_Profiler = Inl TypeError \<and>
   init_private (window_of during_load) new_Profiler = Inl TypeError"
proof
  show "init_private (window_of unpaired_lookup) new_Profiler = Inl TypeError"
  proof (rule C1_unpaired_start_throws [OF getData_window_of,
        where start = "''domainLookupStart''" and b = "''domainLookup''"])
    show "''domainLookupStart'' \<in> set eventsOrder"
      by (simp add: eventsOrder_def)
    show "fst (getData_loop (timing_of unpaired_lookup) (origin (timing_of unpaired_lookup))
                (getPerfObjKeys (timing_of unpaired_lookup)) (Map.empty, 0))
            ''domainLookupStart'' \<noteq> None"
      by code_simp
    show "blockName ''domainLookupStart'' = Some ''domainLookup''"
      by code_simp
    show "fst (getData_loop (timing_of unpaired_lookup) (origin (timing_of unpaired_lookup))
                (getPerfObjKeys (timing_of unpaired_lookup)) (Map.empty, 0))
            (''domainLookup'' @ ''End'') = None"
      by code_simp
  qed
  show "init_private (window_of during_load) new_Profiler = Inl TypeError"
  proof (rule C1_unpaired_start_throws [OF getData_window_of,
        where start = "''loadEventStart''" and b = "''loadEvent''"])
    show "''loadEventStart'' \<in> set eventsOrder"
      by (simp add: eventsOrder_def)
    show "fst (getData_loop (timing_of during_load) (origin (timing_of during_load))
                (getPerfObjKeys (timing_of during_load)) (Map.empty, 0))
            ''loadEventStart'' \<noteq> None"
      by code_simp
    show "blockName ''loadEventStart'' = Some ''loadEvent''"
      by code_simp
    show "fst (getData_loop (timing_of during_load) (origin (timing_of during_load))
                (getPerfObjKeys (timing_of during_load)) (Map.empty, 0))
            (''loadEvent'' @ ''End'') = None"
      by code_simp
  qed
qed

text \<open>
  Claim C2. A section none of whose events is present was to keep its bounds at zero
  without an exception. For such a section \<open>sectionEvents\<close> is empty, \<open>sectionEvents[0]\<close> is
  \<open>undefined\<close>, and line 111 reads \<open>.time\<close> of \<open>data[undefined]\<close>. So \<open>_init\<close> raises
  \<open>TypeError\<close> on every captured event set that leaves the range of a section empty
  (and has no event named \<open>undefined\<close>); in particular when no server event is present.
\<close>

theorem C2_empty_section_throws:
  assumes "getData w p = Inr (Some evs, p1)"
    and "s \<in> set getSections" and "\<forall>el\<in>set (sectionOrder s). evs el = None"
    and "evs ''undefined'' = None"
  shows "init_private w p = Inl TypeError"
proof (cases "init_private w p")
  case (Inl e)
  then show ?thesis by (cases e) simp
next
  case (Inr r)
  then obtain evs' p1' data ss p4 where
    get: "getData w p = Inr (Some evs', p1')" and
    ml: "match_loop 0 getSections evs' = Inr (data, ss)" and
    loop: "init_loop eventsOrder (p1'\<lparr>timingData := Some data, sections := ss\<rparr>) [] =
             Inr (p4, rows r)"
    by (rule init_private_InrE)
  from get assms(1) have evs: "evs' = evs" by simp
  from match_loop_nonempty [OF ml assms(2)] assms(3,4) show ?thesis
    by (simp add: evs)
qed

theorem C2_empty_section_throws_witness:
  "name (getSections ! 1) = ''server'' \<and>
   init_private (window_of no_server_events) new_Profiler = Inl TypeError"
proof
  show "name (getSections ! 1) = ''server''"
    by (simp add: getSections_def)
  show "init_private (window_of no_server_events) new_Profiler = Inl TypeError"
  proof (rule C2_empty_section_throws [OF getData_window_of, where s = "getSections ! 1"])
    show "getSections ! 1 \<in> set getSections"
      by (simp add: getSections_def)
    show "\<forall>el\<in>set (sectionOrder (getSections ! 1)).
        fst (getData_loop (timing_of no_server_events) (origin (timing_of no_server_events))
              (getPerfObjKeys (timing_of no_server_events)) (Map.empty, 0)) el = None"
      by code_simp
    show "fst (getData_loop (timing_of no_server_events) (origin (timing_of no_server_events))
              (getPerfObjKeys (timing_of no_server_events)) (Map.empty, 0)) ''undefined'' = None"
      by code_simp
  qed
qed

text \<open>
  Claim C4. Every captured event set that holds \<open>domainLookupStart\<close> at 10 and
  \<open>domainLookupEnd\<close> at 40 was to yield exactly one \<open>domainLookup\<close> row. A page read inside
  its \<open>load\<close> handler holds both, at these offsets, and \<open>_init\<close> raises \<open>TypeError\<close> on it
  (line 197, for \<open>loadEventStart\<close>) and renders nothing; so it does on the two events
  alone (line 111, for the empty server section).
\<close>

theorem C4_pairing_lost:
  "(\<exists>evs p1. getData (window_of during_load) new_Profiler = Inr (Some evs, p1) \<and>
      map_option time (evs ''domainLookupStart'') = Some 10 \<and>
      map_option time (evs ''domainLookupEnd'') = Some 40) \<and>
   init_private (window_of during_load) new_Profiler = Inl TypeError \<and>
   (\<exists>evs p1. getData (window_of lookup_only) new_Profiler = Inr (Some evs, p1) \<and>
      map_option time (evs ''domainLookupStart'') = Some 10 \<and>
      map_option time (evs ''domainLookupEnd'') = Some 40) \<and>
   init_private (window_of lookup_only) new_Profiler = Inl TypeError"
proof -
  have captured: "\<exists>evs p1. getData (window_of props) new_Profiler = Inr (Some evs, p1) \<and>
      map_option time (evs ''domainLookupStart'') = Some 10 \<and>
      map_option time (evs ''domainLookupEnd'') = Some 40"
    if "map (\<lambda>k. map_option time
              (fst (getData_loop (timing_of props) (origin (timing_of props))
                      (getPerfObjKeys (timing_of props)) (Map.empty, 0)) k))
          [''domainLookupStart'', ''domainLookupEnd''] = [Some 10, Some 40]" for props
    using that getData_window_of [of props new_Profiler] by auto
  have "map (\<lambda>k. map_option time
              (fst (getData_loop (timing_of during_load) (origin (timing_of during_load))
                      (getPerfObjKeys (timing_of during_load)) (Map.empty, 0)) k))
          [''domainLookupStart'', ''domainLookupEnd''] = [Some 10, Some 40]"
    by code_simp
  note first = captured [OF this]
  have "map (\<lambda>k. map_option time
              (fst (getData_loop (timing_of lookup_only) (origin (timing_of lookup_only))
                      (getPerfObjKeys (timing_of lookup_only)) (Map.empty, 0)) k))
          [''domainLookupStart'', ''domainLookupEnd''] = [Some 10, Some 40]"
    by code_simp
  note second = captured [OF this]
  have "isl (init_private (window_of during_load) new_Profiler)"
    by code_simp
  then have third: "init_private (window_of during_load) new_Profiler = Inl TypeError"
    by (rule isl_TypeError)
  have "isl (init_private (window_of lookup_only) new_Profiler)"
    by code_simp
  then have fourth: "init_private (window_of lookup_only) new_Profiler = Inl TypeError"
    by (rule isl_TypeError)
  show ?thesis
    by (intro conjI first second third fourth)
qed

text \<open>
  Claim C10. Every captured event set that holds \<open>redirectStart\<close> and \<open>redirectEnd\<close> was to
  yield two equal \<open>redirect\<close> rows. A redirected page read inside its \<open>load\<close> handler
  holds both, and \<open>_init\<close> raises \<open>TypeError\<close> on it (line 197, for \<open>loadEventStart\<close>) and
  renders nothing.
\<close>

theorem C10_redirect_rows_lost:
  "(\<exists>evs p1. getData (window_of redirected_during_load) new_Profiler = Inr (Some evs, p1) \<and>
      evs ''redirectStart'' \<noteq> None \<and> evs ''redirectEnd'' \<noteq> None) \<and>
   init_private (window_of redirected_during_load) new_Profiler = Inl TypeError"
proof -
  have "list_all (\<lambda>k. fst (getData_loop (timing_of redirected_during_load)
                           (origin (timing_of redirected_during_load))
                           (getPerfObjKeys (timing_of redirected_during_load))
                           (Map.empty, 0)) k \<noteq> None)
          [''redirectStart'', ''redirectEnd'']"
    by code_simp
  with getData_window_of [of redirected_during_load new_Profiler]
  have "\<exists>evs p1. getData (window_of redirected_during_load) new_Profiler = Inr (Some evs, p1) \<and>
      evs ''redirectStart'' \<noteq> None \<and> evs ''redirectEnd'' \<noteq> None"
    by auto
  moreover have "isl (init_private (window_of redirected_during_load) new_Profiler)"
    by code_simp
  then have "init_private (window_of redirected_during_load) new_Profiler = Inl TypeError"
    by (rule isl_TypeError)
  ultimately show ?thesis ..
qed

text \<open>
  Claim C7. Every section whose range has a present event was to get the minimum and the
  maximum of the present times as its bounds; with only \<open>requestStart\<close> at 100 and
  \<open>responseEnd\<close> at 250 present, the server section was to get 100 and 250. On exactly
  these events the network range is empty: \<open>_matchEventsWithSections\<close> raises \<open>TypeError\<close>
  at line 111 before it reaches the server section, and so does \<open>_init\<close>. On a source
  without server events the browser range has present events, and the pass is abandoned
  at the server section before it reaches the browser section.
\<close>

theorem C7_bounds_lost:
  "(\<exists>evs p1. getData (window_of server_fields) new_Profiler = Inr (Some evs, p1) \<and>
      map_option time (evs ''requestStart'') = Some 100 \<and>
      map_option time (evs ''responseEnd'') = Some 250) \<and>
   init_private (window_of server_fields) new_Profiler = Inl TypeError \<and>
   matchEventsWithSections (new_Profiler\<lparr>timingData := Some server_only, sections := getSections\<rparr>) =
     Inl TypeError \<and>
   (\<exists>evs p1. getData (window_of no_server_events) new_Profiler = Inr (Some evs, p1) \<and>
      map_option time (evs ''domLoading'') = Some 200 \<and>
      map_option time (evs ''domComplete'') = Some 400 \<and>
      matchEventsWithSections (p1\<lparr>timingData := Some evs, sections := getSections\<rparr>) =
        Inl TypeError)"
proof -
  let ?e1 = "fst (getData_loop (timing_of server_fields) (origin (timing_of server_fields))
                    (getPerfObjKeys (timing_of server_fields)) (Map.empty, 0))"
  let ?e2 = "fst (getData_loop (timing_of no_server_events) (origin (timing_of no_server_events))
                    (getPerfObjKeys (timing_of no_server_events)) (Map.empty, 0))"
  let ?t2 = "snd (getData_loop (timing_of no_server_events) (origin (timing_of no_server_events))
                    (getPerfObjKeys (timing_of no_server_events)) (Map.empty, 0))"
  have "map (\<lambda>k. map_option time (?e1 k)) [''requestStart'', ''responseEnd''] =
      [Some 100, Some 250]"
    by code_simp
  with getData_window_of [of server_fields new_Profiler]
  have first: "\<exists>evs p1. getData (window_of server_fields) new_Profiler = Inr (Some evs, p1) \<and>
      map_option time (evs ''requestStart'') = Some 100 \<and>
      map_option time (evs ''responseEnd'') = Some 250"
    by auto
  have "isl (init_private (window_of server_fields) new_Profiler)"
    by code_simp
  then have second: "init_private (window_of server_fields) new_Profiler = Inl TypeError"
    by (rule isl_TypeError)
  have "isl (matchEventsWithSections
      (new_Profiler\<lparr>timingData := Some server_only, sections := getSections\<rparr>))"
    by code_simp
  then have third: "matchEventsWithSections
      (new_Profiler\<lparr>timingData := Some server_only, sections := getSections\<rparr>) = Inl TypeError"
    by (rule isl_TypeError)
  have times: "map (\<lambda>k. map_option time (?e2 k)) [''domLoading'', ''domComplete''] =
      [Some 200, Some 400]"
    by code_simp
  have "isl (matchEventsWithSections
      (new_Profiler\<lparr>totalTime := ?t2, timingData := Some ?e2, sections := getSections\<rparr>))"
    by code_simp
  then have "matchEventsWithSections
      (new_Profiler\<lparr>totalTime := ?t2, timingData := Some ?e2, sections := getSections\<rparr>) =
        Inl TypeError"
    by (rule isl_TypeError)
  with times getData_window_of [of no_server_events new_Profiler]
  have fourth: "\<exists>evs p1. getData (window_of no_server_events) new_Profiler = Inr (Some evs, p1) \<and>
      map_option time (evs ''domLoading'') = Some 200 \<and>
      map_option time (evs ''domComplete'') = Some 400 \<and>
      matchEventsWithSections (p1\<lparr>timingData := Some evs, sections := getSections\<rparr>) =
        Inl TypeError"
    by auto
  show ?thesis
    by (intro conjI first second third fourth)
qed

end
